theory Spec2Isabelle
  imports
    Complex_Main
    "HOL-Library.Log_Nat"
    "HOL-Library.Char_ord"
    "HOL-Library.List_Lexorder"
    "HOL-Library.Multiset"
begin

text \<open>
  A model of \<open>make_image_grid.py\<close>, which lays the images of a folder out on a grid.
  The model follows the geometry and the control flow of the program: which files are
  taken, in which order, how large the cells and the grid are, where each image goes,
  and which errors end the run. The imaging library is the environment: it reports the
  size of a file that opens as an image and fails on one that does not, and its other
  calls (allocating, resizing, pasting, parsing the colour, saving) are taken to succeed;
  pixel data is not modelled.
\<close>

section \<open>Python numbers\<close>

text \<open>
  Python integers are unbounded and are modelled by \<^typ>\<open>int\<close>. A Python float is an
  IEEE 754 double; its value is modelled by the rational number it denotes. The function
  \<open>fl\<close> rounds a rational to the nearest number with a 53-bit significand, ties to the
  even significand, which is what \<open>int / int\<close>, \<open>float(int)\<close>, \<open>float * float\<close> and
  \<open>math.sqrt\<close> do to their exact results. The exponent is not bounded: overflow to
  infinity (above \<open>2^1024\<close>) and gradual underflow (below \<open>2^-1022\<close>) are outside the model.
\<close>

text \<open>The binary exponent of a positive rational: \<open>2^e \<le> x < 2^(e+1)\<close>.\<close>

definition expo :: "rat \<Rightarrow> int" where
  "expo x = (let (a, b) = quotient_of x; e0 = bitlen a - bitlen b
             in if 2 powi e0 \<le> x then e0 else e0 - 1)"

definition round_even :: "rat \<Rightarrow> int" where
  "round_even q = (let f = \<lfloor>q\<rfloor>; r = q - of_int f
                   in if r < 1/2 then f else if 1/2 < r then f + 1
                      else if even f then f else f + 1)"

definition ulp :: "rat \<Rightarrow> rat" where
  "ulp x = 2 powi (expo x - 52)"

definition fl :: "rat \<Rightarrow> rat" where
  "fl x = (if x = 0 then 0
           else if 0 < x then of_int (round_even (x / ulp x)) * ulp x
           else - (of_int (round_even (- x / ulp (- x))) * ulp (- x)))"

datatype error =
    SystemExit string
  | UnidentifiedImageError string
  | ZeroDivisionError

text \<open>\<open>a / b\<close> on two Python integers: the correctly rounded quotient.\<close>

definition truediv :: "int \<Rightarrow> int \<Rightarrow> error + rat" where
  "truediv a b = (if b = 0 then Inl ZeroDivisionError else Inr (fl (of_int a / of_int b)))"

text \<open>\<open>a * s\<close> with \<open>a\<close> an integer and \<open>s\<close> a float: \<open>a\<close> is converted first.\<close>

definition float_of_int :: "int \<Rightarrow> rat" where
  "float_of_int a = fl (of_int a)"

definition fmul :: "int \<Rightarrow> rat \<Rightarrow> rat" where
  "fmul a s = fl (float_of_int a * s)"

text \<open>\<open>int(x)\<close> on a float truncates toward zero.\<close>

definition py_int :: "rat \<Rightarrow> int" where
  "py_int x = (if 0 \<le> x then \<lfloor>x\<rfloor> else \<lceil>x\<rceil>)"

text \<open>\<open>math.ceil(x)\<close>.\<close>

definition math_ceil :: "rat \<Rightarrow> int" where
  "math_ceil x = \<lceil>x\<rceil>"

text \<open>The integer square root, two bits of the argument at a time.\<close>

function isqrt :: "int \<Rightarrow> int" where
  "isqrt n = (if n \<le> 0 then 0
              else let r = 2 * isqrt (n div 4)
                   in if (r + 1) * (r + 1) \<le> n then r + 1 else r)"
  by pat_completeness auto
termination
  by (relation "measure nat") auto

declare isqrt.simps [simp del]

text \<open>
  \<open>math.sqrt(x)\<close> on a float \<open>x\<close>: the square root rounded to the nearest double. With
  \<open>u\<close> the unit in the last place of the root, \<open>y = x / u\<^sup>2\<close> is the square of the
  root's significand, \<open>f\<close> is that significand rounded down, and the root is rounded up
  when it lies above \<open>f + 1/2\<close>. The program calls it on \<open>len(images) \<ge> 1\<close> only;
  Python raises ValueError on a negative argument, which is not modelled.
\<close>

definition math_sqrt :: "rat \<Rightarrow> rat" where
  "math_sqrt x =
     (if x \<le> 0 then 0
      else let e = expo x div 2;
               u = 2 powi (e - 52);
               y = x / (u * u);
               f = isqrt \<lfloor>y\<rfloor>;
               h = of_int (f * f + f) + 1/4;
               r = (if y < h then f else if h < y then f + 1
                    else if even f then f else f + 1)
           in of_int r * u)"

section \<open>The file enumerator\<close>

text \<open>
  A directory entry, as far as the program looks at it: its name, whether
  \<open>Path.is_file()\<close> holds, and the size \<open>(width, height)\<close> that \<open>Image.open\<close> reports
  for it, \<open>None\<close> when the file cannot be identified as an image. Paths of one
  directory are compared by their names, and names by code point, for which the order of
  \<^typ>\<open>char\<close> stands.
\<close>

record entry =
  entry_name :: string
  is_file :: bool
  image_size :: "(int \<times> int) option"

definition IMAGE_EXTS :: "string set" where
  "IMAGE_EXTS = {''.jpg'', ''.jpeg'', ''.png'', ''.bmp'', ''.gif'', ''.tif'', ''.tiff'', ''.webp''}"

text \<open>
  \<open>Path.suffix\<close>: with \<open>i\<close> the position of the last dot of the name, the suffix is
  \<open>name[i:]\<close> when \<open>0 < i < len(name) - 1\<close> and the empty string otherwise.
\<close>

fun rfind_dot :: "string \<Rightarrow> nat option" where
  "rfind_dot [] = None"
| "rfind_dot (c # cs) =
     (case rfind_dot cs of
        Some i \<Rightarrow> Some (Suc i)
      | None \<Rightarrow> if c = CHR ''.'' then Some 0 else None)"

definition suffix :: "string \<Rightarrow> string" where
  "suffix nm =
     (case rfind_dot nm of
        None \<Rightarrow> []
      | Some i \<Rightarrow> if 0 < i \<and> i + 1 < length nm then drop i nm else [])"

text \<open>\<open>str.lower\<close>, on the letters that can reach a member of \<open>IMAGE_EXTS\<close>: A to Z.\<close>

definition lower_char :: "char \<Rightarrow> char" where
  "lower_char c =
     (if CHR ''A'' \<le> c \<and> c \<le> CHR ''Z'' then char_of (of_char c + (32 :: nat)) else c)"

definition lower :: "string \<Rightarrow> string" where
  "lower s = map lower_char s"

definition is_image :: "entry \<Rightarrow> bool" where
  "is_image e \<longleftrightarrow> is_file e \<and> lower (suffix (entry_name e)) \<in> IMAGE_EXTS"

text \<open>
  \<open>iter_images\<close> (lines 13 to 16) takes what \<open>folder.iterdir()\<close> yields, in whatever
  order the file system gives it, sorts it and keeps the image files.
\<close>

definition iter_images :: "entry list \<Rightarrow> entry list" where
  "iter_images listing = filter is_image (sort_key entry_name listing)"

section \<open>The cell renderer\<close>

definition image_open :: "entry \<Rightarrow> error + (int \<times> int)" where
  "image_open p =
     (case image_size p of
        None \<Rightarrow> Inl (UnidentifiedImageError (entry_name p))
      | Some s \<Rightarrow> Inr s)"

text \<open>
  What \<open>load_and_fit\<close> (lines 19 to 30) decides about a cell: the size of the cell
  canvas, the size the image is resized to, and the offset at which it is pasted into
  the cell. A width or height of zero makes the division raise.
\<close>

record cell =
  cell_size :: "int \<times> int"
  resized :: "int \<times> int"
  offset :: "int \<times> int"

definition load_and_fit :: "entry \<Rightarrow> int \<Rightarrow> int \<Rightarrow> error + cell" where
  "load_and_fit path cell_w cell_h =
     (case image_open path of
        Inl e \<Rightarrow> Inl e
      | Inr (width, height) \<Rightarrow>
          (case truediv cell_w width of
             Inl e \<Rightarrow> Inl e
           | Inr sx \<Rightarrow>
               (case truediv cell_h height of
                  Inl e \<Rightarrow> Inl e
                | Inr sy \<Rightarrow>
                    let scale = min sx sy;
                        new_w = max 1 (py_int (fmul width scale));
                        new_h = max 1 (py_int (fmul height scale));
                        off_x = (cell_w - new_w) div 2;
                        off_y = (cell_h - new_h) div 2
                    in Inr \<lparr>cell_size = (cell_w, cell_h),
                            resized = (new_w, new_h),
                            offset = (off_x, off_y)\<rparr>)))"

section \<open>The driver\<close>

record args =
  folder :: string
  output_path :: string
  cols :: int
  cell_width :: int
  cell_height :: int
  padding :: int
  bg :: string

text \<open>The loop that reads the size of every image (lines 83 to 86).\<close>

fun read_sizes :: "entry list \<Rightarrow> error + (int \<times> int) list" where
  "read_sizes [] = Inr []"
| "read_sizes (p # ps) =
     (case image_open p of
        Inl e \<Rightarrow> Inl e
      | Inr s \<Rightarrow> (case read_sizes ps of Inl e \<Rightarrow> Inl e | Inr ss \<Rightarrow> Inr (s # ss)))"

text \<open>
  The geometry that \<open>main\<close> computes from the arguments, the number of images and
  their sizes (lines 88 to 98). \<open>x or y\<close> on integers is \<open>x\<close> unless \<open>x\<close> is zero.
\<close>

record layout =
  cell_w :: int
  cell_h :: int
  columns :: int
  rows :: int
  pad :: int
  grid_w :: int
  grid_h :: int

definition main_layout :: "args \<Rightarrow> nat \<Rightarrow> (int \<times> int) list \<Rightarrow> error + layout" where
  "main_layout a n sizes =
     (let max_w = Max (set (map fst sizes));
          max_h = Max (set (map snd sizes));
          cw = (if cell_width a \<noteq> 0 then cell_width a else max_w);
          ch = (if cell_height a \<noteq> 0 then cell_height a else max_h);
          c = (if cols a \<noteq> 0 then cols a else math_ceil (math_sqrt (float_of_int (int n))))
      in case truediv (int n) c of
           Inl e \<Rightarrow> Inl e
         | Inr q \<Rightarrow>
             let r = math_ceil q; p = padding a
             in Inr \<lparr>cell_w = cw, cell_h = ch, columns = c, rows = r, pad = p,
                     grid_w = c * cw + (c - 1) * p,
                     grid_h = r * ch + (r - 1) * p\<rparr>)"

text \<open>
  The loop over \<open>enumerate(images)\<close> (lines 102 to 108), from index \<open>idx\<close> on: each
  image is rendered into a cell, and the cell is recorded with the position it is pasted
  at. \<open>//\<close> and \<open>%\<close> round toward minus infinity, as \<open>div\<close> and \<open>mod\<close> do.
\<close>

fun paste_cells :: "layout \<Rightarrow> nat \<Rightarrow> entry list \<Rightarrow> error + ((int \<times> int) \<times> cell) list" where
  "paste_cells g idx [] = Inr []"
| "paste_cells g idx (img_path # rest) =
     (let r = int idx div columns g;
          c = int idx mod columns g;
          x = c * (cell_w g + pad g);
          y = r * (cell_h g + pad g)
      in case load_and_fit img_path (cell_w g) (cell_h g) of
           Inl e \<Rightarrow> Inl e
         | Inr cl \<Rightarrow>
             (case paste_cells g (Suc idx) rest of
                Inl e \<Rightarrow> Inl e
              | Inr ps \<Rightarrow> Inr (((x, y), cl) # ps)))"

text \<open>
  The grid image: its size and the cells pasted onto it. The world that \<open>main\<close> runs in:
  the directories it can list (\<open>None\<close> where \<open>is_dir()\<close> is false), the files it has
  saved, and what it has printed. The arguments are those \<open>argparse\<close> has parsed; the
  folder is named in the error message as it was given.
\<close>

record grid =
  grid_layout :: layout
  grid_size :: "int \<times> int"
  pasted :: "((int \<times> int) \<times> cell) list"

record world =
  dirs :: "string \<Rightarrow> entry list option"
  saved :: "(string \<times> grid) list"
  printed :: "string list"

definition grid_save :: "string \<Rightarrow> grid \<Rightarrow> world \<Rightarrow> world" where
  "grid_save out_path g w = w\<lparr>saved := saved w @ [(out_path, g)]\<rparr>"

definition print :: "string \<Rightarrow> world \<Rightarrow> world" where
  "print line w = w\<lparr>printed := printed w @ [line]\<rparr>"

definition main :: "args \<Rightarrow> world \<Rightarrow> (error + unit) \<times> world" where
  "main a w =
     (case dirs w (folder a) of
        None \<Rightarrow> (Inl (SystemExit (''Folder not found: '' @ folder a)), w)
      | Some listing \<Rightarrow>
          let images = iter_images listing
          in if images = [] then (Inl (SystemExit ''No images found in the folder.''), w)
             else (case read_sizes images of
                    Inl e \<Rightarrow> (Inl e, w)
                  | Inr sizes \<Rightarrow>
                      (case main_layout a (length images) sizes of
                         Inl e \<Rightarrow> (Inl e, w)
                       | Inr g \<Rightarrow>
                           (case paste_cells g 0 images of
                              Inl e \<Rightarrow> (Inl e, w)
                            | Inr ps \<Rightarrow>
                                let grid = \<lparr>grid_layout = g,
                                            grid_size = (grid_w g, grid_h g),
                                            pasted = ps\<rparr>;
                                    out_path = output_path a
                                in (Inr (),
                                    print (''Wrote '' @ out_path) (grid_save out_path grid w))))))"

text \<open>
  The exit status of the process: an exception that reaches the top level, \<open>SystemExit\<close>
  with a message included, ends it with status 1 and the message on the error stream.
\<close>

definition exit_status :: "error + unit \<Rightarrow> int" where
  "exit_status r = (case r of Inl e \<Rightarrow> 1 | Inr u \<Rightarrow> 0)"

definition error_message :: "error + unit \<Rightarrow> string option" where
  "error_message r = (case r of Inl (SystemExit m) \<Rightarrow> Some m | _ \<Rightarrow> None)"

section \<open>Formulas of the specification\<close>

text \<open>
  The specification's formula for the resized dimensions, in its own words: the exact
  scale \<open>min(w / srcWidth, h / srcHeight)\<close>, and each product rounded to the nearest
  integer with a floor of 1.
\<close>

definition spec_resized :: "int \<Rightarrow> int \<Rightarrow> int \<Rightarrow> int \<Rightarrow> int \<times> int" where
  "spec_resized src_w src_h w h =
     (let scale = min (of_int w / of_int src_w) (of_int h / of_int src_h) :: rat
      in (max 1 (round (of_int src_w * scale)), max 1 (round (of_int src_h * scale))))"

text \<open>
  The specification's formula for the column count, in its own words: the caller's
  \<open>cols\<close> when it is positive, \<open>ceil(sqrt(n))\<close> otherwise.
\<close>

definition spec_columns :: "int \<Rightarrow> nat \<Rightarrow> int" where
  "spec_columns c n = (if 0 < c then c else \<lceil>sqrt (real n)\<rceil>)"

section \<open>Rounding to the nearest double\<close>

lemma powi_nat: "0 \<le> k \<Longrightarrow> (2::rat) powi k = 2 ^ nat k"
  by (simp add: power_int_def)

lemma expo_bounds:
  assumes "0 < x"
  shows "2 powi expo x \<le> x \<and> x < 2 powi (expo x + 1)"
proof -
  obtain a b where q: "quotient_of x = (a, b)" by (cases "quotient_of x")
  then have b: "0 < b" and x: "x = of_int a / of_int b"
    using quotient_of_denom_pos quotient_of_div by auto
  with assms have a: "0 < a" by (simp add: zero_less_divide_iff)
  define la lb where "la = bitlen a" and "lb = bitlen b"
  have la1: "1 \<le> la" and lb1: "1 \<le> lb"
    using a b bitlen_eq_zero_iff[of a] bitlen_eq_zero_iff[of b] bitlen_nonneg[of a] bitlen_nonneg[of b]
    unfolding la_def lb_def by linarith+
  have ia: "2 ^ nat (la - 1) \<le> a \<and> a < 2 ^ nat la"
    using bitlen_bounds[OF a] by (simp add: la_def)
  have ib: "2 ^ nat (lb - 1) \<le> b \<and> b < 2 ^ nat lb"
    using bitlen_bounds[OF b] by (simp add: lb_def)
  have ra: "(2::rat) powi (la - 1) \<le> of_int a" "of_int a < (2::rat) powi la"
  proof -
    have "(of_int (2 ^ nat (la - 1)) :: rat) \<le> of_int a" using ia by (simp only: of_int_le_iff)
    then show "(2::rat) powi (la - 1) \<le> of_int a" using la1 by (simp add: powi_nat)
    have "(of_int a :: rat) < of_int (2 ^ nat la)" using ia by (simp only: of_int_less_iff)
    then show "of_int a < (2::rat) powi la" using la1 by (simp add: powi_nat)
  qed
  have rb: "(2::rat) powi (lb - 1) \<le> of_int b" "of_int b < (2::rat) powi lb"
  proof -
    have "(of_int (2 ^ nat (lb - 1)) :: rat) \<le> of_int b" using ib by (simp only: of_int_le_iff)
    then show "(2::rat) powi (lb - 1) \<le> of_int b" using lb1 by (simp add: powi_nat)
    have "(of_int b :: rat) < of_int (2 ^ nat lb)" using ib by (simp only: of_int_less_iff)
    then show "of_int b < (2::rat) powi lb" using lb1 by (simp add: powi_nat)
  qed
  have bpos: "(0::rat) < of_int b" using b by simp
  have up: "x < 2 powi (la - lb + 1)"
  proof -
    have "of_int a * 2 powi (lb - 1) < (2::rat) powi la * of_int b"
      using ra(2) rb(1) a b
      by (meson less_le_trans mult_le_cancel_left_pos mult_strict_right_mono of_int_pos zero_less_power_int zero_less_numeral)
    also have "(2::rat) powi la = 2 powi (la - lb + 1) * 2 powi (lb - 1)"
      by (simp flip: power_int_add)
    finally have "(of_int a :: rat) < 2 powi (la - lb + 1) * of_int b" by simp
    then show ?thesis using bpos by (simp add: x pos_divide_less_eq)
  qed
  have lo: "2 powi (la - lb - 1) \<le> x"
  proof -
    have "(2::rat) powi (la - 1) * of_int b \<le> of_int a * 2 powi lb"
      using ra(1) rb(2) a b
      by (meson less_imp_le mult_mono of_int_nonneg zero_le_power_int zero_le_numeral order.strict_implies_order)
    moreover have "(2::rat) powi (la - 1) = 2 powi (la - lb - 1) * 2 powi lb"
      by (simp flip: power_int_add)
    ultimately have "2 powi (la - lb - 1) * of_int b \<le> (of_int a :: rat)" by simp
    then show ?thesis using bpos by (simp add: x pos_le_divide_eq)
  qed
  show ?thesis
  proof (cases "2 powi (la - lb) \<le> x")
    case True
    then have "expo x = la - lb" by (simp add: expo_def q la_def lb_def)
    then show ?thesis using True up by simp
  next
    case False
    then have "expo x = la - lb - 1" by (simp add: expo_def q la_def lb_def)
    then show ?thesis using False lo by simp
  qed
qed

lemma expo_unique:
  assumes "0 < x" "2 powi e \<le> x" "x < 2 powi (e + 1)"
  shows "expo x = e"
proof (rule ccontr)
  assume ne: "expo x \<noteq> e"
  have b: "2 powi expo x \<le> x" "x < 2 powi (expo x + 1)" using expo_bounds[OF assms(1)] by auto
  show False
  proof (cases "expo x < e")
    case True
    then have "(2::rat) powi (expo x + 1) \<le> 2 powi e" by (intro power_int_increasing) auto
    with b assms show False by linarith
  next
    case False
    with ne have "e + 1 \<le> expo x" by simp
    then have "(2::rat) powi (e + 1) \<le> 2 powi expo x" by (intro power_int_increasing) auto
    with b assms show False by linarith
  qed
qed

lemma round_even_cases: "round_even q = \<lfloor>q\<rfloor> \<or> round_even q = \<lfloor>q\<rfloor> + 1"
  by (simp add: round_even_def Let_def)

lemma round_even_of_int: "round_even (of_int n) = n"
  by (simp add: round_even_def)

lemma round_even_err: "\<bar>of_int (round_even q) - q\<bar> \<le> 1/2"
proof -
  have "of_int \<lfloor>q\<rfloor> \<le> q" "q < of_int \<lfloor>q\<rfloor> + 1" by linarith+
  then show ?thesis
    unfolding round_even_def Let_def by (simp add: abs_le_iff)
qed

lemma round_even_mono:
  assumes "q \<le> q'"
  shows "round_even q \<le> round_even q'"
proof (cases "\<lfloor>q\<rfloor> = \<lfloor>q'\<rfloor>")
  case True
  then show ?thesis using assms unfolding round_even_def Let_def by auto
next
  case False
  with assms have "\<lfloor>q\<rfloor> < \<lfloor>q'\<rfloor>" using floor_mono[OF assms] by linarith
  then show ?thesis using round_even_cases[of q] round_even_cases[of q'] by linarith
qed

lemma ulp_pos: "0 < ulp x"
  by (simp add: ulp_def)

lemma ulp_times: "ulp x * 2 ^ 52 = 2 powi expo x" "ulp x * 2 ^ 53 = 2 powi (expo x + 1)"
proof -
  have "(2::rat) powi (expo x - 52 + 52) = 2 powi (expo x - 52) * 2 powi 52"
    by (rule power_int_add) simp
  then show "ulp x * 2 ^ 52 = 2 powi expo x" by (simp add: ulp_def)
  have "(2::rat) powi (expo x - 52 + 53) = 2 powi (expo x - 52) * 2 powi 53"
    by (rule power_int_add) simp
  then show "ulp x * 2 ^ 53 = 2 powi (expo x + 1)" by (simp add: ulp_def add.commute)
qed

lemma fl_pos_eq: "0 < x \<Longrightarrow> fl x = of_int (round_even (x / ulp x)) * ulp x"
  by (simp add: fl_def)

lemma mant_bounds:
  assumes "0 < x"
  shows "2 ^ 52 \<le> x / ulp x" "x / ulp x < 2 ^ 53"
proof -
  have b: "2 powi expo x \<le> x" "x < 2 powi (expo x + 1)" using expo_bounds[OF assms] by auto
  show "2 ^ 52 \<le> x / ulp x"
    using b(1) ulp_pos[of x] ulp_times(1)[of x] by (simp add: pos_le_divide_eq mult.commute)
  show "x / ulp x < 2 ^ 53"
    using b(2) ulp_pos[of x] ulp_times(2)[of x] by (simp add: pos_divide_less_eq mult.commute)
qed

lemma fl_err:
  assumes "0 < x"
  shows "\<bar>fl x - x\<bar> \<le> ulp x / 2"
proof -
  let ?m = "x / ulp x"
  have "fl x - x = (of_int (round_even ?m) - ?m) * ulp x"
    using ulp_pos[of x] by (simp add: fl_pos_eq[OF assms] algebra_simps)
  then have "\<bar>fl x - x\<bar> = \<bar>of_int (round_even ?m) - ?m\<bar> * ulp x"
    using ulp_pos[of x] by (simp add: abs_mult)
  also have "\<dots> \<le> 1/2 * ulp x"
    using round_even_err[of ?m] ulp_pos[of x] by (intro mult_right_mono) auto
  finally show ?thesis by simp
qed

text \<open>
  What \<open>fl\<close> returns for a positive \<open>x\<close> with \<open>2^e \<le> x < 2^(e+1)\<close>: a number
  \<open>M * 2^(e-52)\<close> with a 53-bit significand \<open>M\<close> (or \<open>2^53\<close>, the next power of two)
  that lies within half a unit in the last place of \<open>x\<close>.
\<close>

lemma fl_nearest:
  assumes "0 < x"
  shows "\<exists>M. fl x = of_int M * 2 powi (expo x - 52) \<and> 2 ^ 52 \<le> M \<and> M \<le> 2 ^ 53 \<and>
           \<bar>fl x - x\<bar> \<le> 2 powi (expo x - 52) / 2"
proof -
  let ?m = "x / ulp x"
  have "round_even (of_int (2 ^ 52)) \<le> round_even ?m"
    using mant_bounds(1)[OF assms] by (intro round_even_mono) simp
  then have lo: "2 ^ 52 \<le> round_even ?m" unfolding round_even_of_int .
  have "round_even ?m \<le> round_even (of_int (2 ^ 53))"
    using mant_bounds(2)[OF assms] by (intro round_even_mono) simp
  then have hi: "round_even ?m \<le> 2 ^ 53" unfolding round_even_of_int .
  have "fl x = of_int (round_even ?m) * 2 powi (expo x - 52)"
    unfolding fl_pos_eq[OF assms] ulp_def ..
  moreover have "\<bar>fl x - x\<bar> \<le> 2 powi (expo x - 52) / 2"
    using fl_err[OF assms] unfolding ulp_def .
  ultimately show ?thesis using lo hi by blast
qed

lemma fl_rel_err:
  assumes "0 < x"
  shows "\<bar>fl x - x\<bar> \<le> x / 2 ^ 53"
proof -
  have "ulp x * 2 ^ 52 \<le> x" using expo_bounds[OF assms] ulp_times(1)[of x] by simp
  then have "ulp x / 2 \<le> x / 2 ^ 53" by (simp add: field_simps)
  with fl_err[OF assms] show ?thesis by linarith
qed

lemma fl_pos_range:
  assumes "0 < x"
  shows "2 powi expo x \<le> fl x" "fl x \<le> 2 powi (expo x + 1)"
proof -
  let ?m = "x / ulp x"
  have "round_even (of_int (2 ^ 52)) \<le> round_even ?m"
    using mant_bounds(1)[OF assms] by (intro round_even_mono) simp
  then have lo: "(2 ^ 52 :: rat) \<le> of_int (round_even ?m)"
    unfolding round_even_of_int by (metis of_int_le_iff of_int_numeral of_int_power)
  have "round_even ?m \<le> round_even (of_int (2 ^ 53))"
    using mant_bounds(2)[OF assms] by (intro round_even_mono) simp
  then have hi: "of_int (round_even ?m) \<le> (2 ^ 53 :: rat)"
    unfolding round_even_of_int by (metis of_int_le_iff of_int_numeral of_int_power)
  have "2 powi expo x = 2 ^ 52 * ulp x" using ulp_times(1)[of x] by (simp add: mult.commute)
  also have "\<dots> \<le> of_int (round_even ?m) * ulp x"
    using lo ulp_pos[of x] by (intro mult_right_mono) auto
  finally show "2 powi expo x \<le> fl x" by (simp add: fl_pos_eq[OF assms])
  have "of_int (round_even ?m) * ulp x \<le> 2 ^ 53 * ulp x"
    using hi ulp_pos[of x] by (intro mult_right_mono) auto
  also have "\<dots> = 2 powi (expo x + 1)" using ulp_times(2)[of x] by (simp add: mult.commute)
  finally show "fl x \<le> 2 powi (expo x + 1)" by (simp add: fl_pos_eq[OF assms])
qed

lemma fl_pos: "0 < x \<Longrightarrow> 0 < fl x"
  using fl_pos_range(1)[of x] zero_less_power_int[of "2::rat" "expo x"] by linarith

lemma fl_mono_pos:
  assumes "0 < x" "x \<le> y"
  shows "fl x \<le> fl y"
proof -
  have y: "0 < y" using assms by linarith
  have "expo x \<le> expo y"
  proof (rule ccontr)
    assume "\<not> expo x \<le> expo y"
    then have "expo y + 1 \<le> expo x" by simp
    then have "(2::rat) powi (expo y + 1) \<le> 2 powi expo x" by (intro power_int_increasing) auto
    with expo_bounds[OF assms(1)] expo_bounds[OF y] assms(2) show False by linarith
  qed
  show ?thesis
  proof (cases "expo x = expo y")
    case True
    then have u: "ulp x = ulp y" by (simp add: ulp_def)
    have "x / ulp y \<le> y / ulp y" using assms(2) ulp_pos[of y] by (simp add: divide_right_mono)
    then have "round_even (x / ulp y) \<le> round_even (y / ulp y)" by (rule round_even_mono)
    then have "(of_int (round_even (x / ulp y)) :: rat) \<le> of_int (round_even (y / ulp y))"
      by (simp only: of_int_le_iff)
    then show ?thesis
      using ulp_pos[of y] by (simp add: fl_pos_eq[OF assms(1)] fl_pos_eq[OF y] u mult_right_mono)
  next
    case False
    with \<open>expo x \<le> expo y\<close> have "expo x + 1 \<le> expo y" by simp
    then have "(2::rat) powi (expo x + 1) \<le> 2 powi expo y" by (intro power_int_increasing) auto
    with fl_pos_range(2)[OF assms(1)] fl_pos_range(1)[OF y] show ?thesis by linarith
  qed
qed

lemma fl_zero: "fl 0 = 0"
  by (simp add: fl_def)

lemma fl_uminus: "fl (- x) = - fl x"
  by (cases "x = 0"; cases "0 < x") (auto simp: fl_def)

lemma fl_neg: "x < 0 \<Longrightarrow> fl x < 0"
  using fl_pos[of "- x"] by (simp add: fl_uminus)

lemma fl_mono:
  assumes "x \<le> y"
  shows "fl x \<le> fl y"
proof -
  consider "0 < x" | "x = 0" "0 < y" | "x = 0" "y = 0" | "x < 0" "0 \<le> y" | "x < 0" "y < 0"
    using assms by linarith
  then show ?thesis
  proof cases
    case 1 then show ?thesis using assms by (rule fl_mono_pos)
  next
    case 2 then show ?thesis using fl_pos[of y] by (simp add: fl_zero)
  next
    case 3 then show ?thesis by simp
  next
    case 4
    then have "fl x < 0" "0 \<le> fl y" using fl_neg[of x] fl_pos[of y] fl_zero
      by (auto simp: le_less)
    then show ?thesis by linarith
  next
    case 5
    then have "fl (- y) \<le> fl (- x)" using assms by (intro fl_mono_pos) auto
    then show ?thesis by (simp add: fl_uminus)
  qed
qed

lemma fl_of_int_pos:
  assumes "0 < n" "n < 2 ^ 53"
  shows "fl (of_int n) = of_int n"
proof -
  let ?x = "of_int n :: rat"
  have x: "0 < ?x" using assms by simp
  have "2 powi expo ?x \<le> ?x" using expo_bounds[OF x] by simp
  also have "?x < 2 ^ 53" using assms(2) by (metis of_int_less_iff of_int_numeral of_int_power)
  also have "(2 ^ 53 :: rat) = 2 powi 53" by (simp add: power_int_def)
  finally have lt: "(2::rat) powi expo ?x < 2 powi 53" .
  have "expo ?x < 53"
  proof (rule ccontr)
    assume "\<not> expo ?x < 53"
    then have "(2::rat) powi 53 \<le> 2 powi expo ?x" by (intro power_int_increasing) auto
    with lt show False by linarith
  qed
  then have k: "0 \<le> 52 - expo ?x" by simp
  have "?x / ulp ?x = ?x * 2 powi (52 - expo ?x)"
    unfolding ulp_def by (simp add: power_int_diff field_simps)
  also have "\<dots> = of_int (n * 2 ^ nat (52 - expo ?x))"
    using k by (simp add: powi_nat)
  finally have m: "?x / ulp ?x = of_int (n * 2 ^ nat (52 - expo ?x))" .
  have "fl ?x = (?x / ulp ?x) * ulp ?x"
    unfolding fl_pos_eq[OF x] m round_even_of_int ..
  then show ?thesis using ulp_pos[of ?x] by simp
qed

lemma fl_of_int:
  assumes "\<bar>n\<bar> < 2 ^ 53"
  shows "fl (of_int n) = of_int n"
proof -
  consider "0 < n" | "n = 0" | "n < 0" by linarith
  then show ?thesis
  proof cases
    case 1 then show ?thesis using assms by (intro fl_of_int_pos) auto
  next
    case 2 then show ?thesis by (simp add: fl_zero)
  next
    case 3
    then have "fl (of_int (- n)) = of_int (- n)" using assms by (intro fl_of_int_pos) auto
    then show ?thesis by (simp add: fl_uminus)
  qed
qed

lemma fl_min: "fl (min a b) = min (fl a) (fl b)"
  using fl_mono[of a b] fl_mono[of b a] by (auto simp: min_def)

lemma int_div_bounds:
  fixes n c k :: int
  assumes "0 < c"
  shows "rat_of_int k < of_int n / of_int c \<longleftrightarrow> k * c < n"
    and "of_int n / of_int c < rat_of_int k \<longleftrightarrow> n < k * c"
    and "of_int n / of_int c \<le> rat_of_int k \<longleftrightarrow> n \<le> k * c"
    and "rat_of_int k \<le> of_int n / of_int c \<longleftrightarrow> k * c \<le> n"
proof -
  have c: "(0::rat) < of_int c" using assms by simp
  have m: "rat_of_int k * of_int c = of_int (k * c)" by simp
  show "rat_of_int k < of_int n / of_int c \<longleftrightarrow> k * c < n"
    unfolding pos_less_divide_eq[OF c] m of_int_less_iff ..
  show "of_int n / of_int c < rat_of_int k \<longleftrightarrow> n < k * c"
    unfolding pos_divide_less_eq[OF c] m of_int_less_iff ..
  show "of_int n / of_int c \<le> rat_of_int k \<longleftrightarrow> n \<le> k * c"
    unfolding pos_divide_le_eq[OF c] m of_int_le_iff ..
  show "rat_of_int k \<le> of_int n / of_int c \<longleftrightarrow> k * c \<le> n"
    unfolding pos_le_divide_eq[OF c] m of_int_le_iff ..
qed

text \<open>A positive quotient of integers below \<open>2^53\<close> is at least \<open>1/c\<close> away from
  every integer it is not equal to, and rounding moves it by less than that.\<close>

lemma fl_div_err:
  fixes n c :: int
  assumes "0 < n" "n < 2 ^ 53" "0 < c"
  shows "\<bar>fl (of_int n / of_int c) - of_int n / of_int c\<bar> < 1 / of_int c"
proof -
  let ?x = "rat_of_int n / of_int c"
  have c: "(0::rat) < of_int c" using assms by simp
  have x: "0 < ?x" using assms by simp
  have "rat_of_int n < 2 ^ 53" using assms(2) by (metis of_int_less_iff of_int_numeral of_int_power)
  then have "?x / 2 ^ 53 < 1 / of_int c" using c by (simp add: field_simps)
  with fl_rel_err[OF x] show ?thesis by linarith
qed

lemma ceil_fl_div:
  fixes n c :: int
  assumes "0 < n" "n < 2 ^ 53" "0 < c"
  shows "\<lceil>fl (of_int n / of_int c)\<rceil> = \<lceil>rat_of_int n / of_int c\<rceil>"
proof -
  let ?x = "rat_of_int n / of_int c"
  define k where "k = \<lceil>?x\<rceil>"
  have c: "(0::rat) < of_int c" using assms by simp
  have x: "0 < ?x" using assms by simp
  have k: "of_int k - 1 < ?x" "?x \<le> of_int k" unfolding k_def by linarith+
  have "(0::rat) < of_int k" using x k(2) by linarith
  then have k1: "1 \<le> k" by simp
  have "?x \<le> of_int n" using assms c by (simp add: field_simps mult_le_cancel_left1)
  then have "k \<le> n" unfolding k_def by (simp add: ceiling_le_iff)
  then have kexact: "fl (of_int k) = of_int k" using k1 assms(2) by (intro fl_of_int) simp
  have up: "fl ?x \<le> of_int k" using fl_mono[OF k(2)] kexact by simp
  have "rat_of_int (k - 1) < ?x" using k(1) by simp
  then have "(k - 1) * c < n" by (simp only: int_div_bounds(1)[OF assms(3)])
  then have "(k - 1) * c \<le> n - 1" by simp
  then have "rat_of_int ((k - 1) * c) \<le> of_int (n - 1)" by (simp only: of_int_le_iff)
  then have "(rat_of_int k - 1) * of_int c + 1 \<le> of_int n" by simp
  moreover have "(rat_of_int k - 1 + 1 / of_int c) * of_int c = (rat_of_int k - 1) * of_int c + 1"
    using c by (simp add: distrib_right)
  ultimately have "rat_of_int k - 1 + 1 / of_int c \<le> ?x"
    by (simp only: pos_le_divide_eq[OF c])
  with fl_div_err[OF assms] have lo: "of_int k - 1 < fl ?x" by linarith
  show ?thesis using lo up unfolding k_def[symmetric] by (intro ceiling_unique) auto
qed

lemma floor_fl_div:
  fixes n c :: int
  assumes "0 < n" "n < 2 ^ 53" "0 < c"
  shows "\<lfloor>fl (of_int n / of_int c)\<rfloor> = \<lfloor>rat_of_int n / of_int c\<rfloor>"
proof -
  let ?x = "rat_of_int n / of_int c"
  define k where "k = \<lfloor>?x\<rfloor>"
  have c: "(0::rat) < of_int c" using assms by simp
  have x: "0 < ?x" using assms by simp
  have k: "of_int k \<le> ?x" "?x < of_int k + 1" unfolding k_def by linarith+
  have k0: "0 \<le> k" using x unfolding k_def by simp
  have "?x \<le> of_int n" using assms c by (simp add: field_simps mult_le_cancel_left1)
  then have "k \<le> n" using k(1) by (metis of_int_le_iff order_trans)
  then have kexact: "fl (of_int k) = of_int k" using k0 assms(2) by (intro fl_of_int) simp
  have lo: "of_int k \<le> fl ?x" using fl_mono[OF k(1)] kexact by simp
  have "?x < rat_of_int (k + 1)" using k(2) by simp
  then have "n < (k + 1) * c" by (simp only: int_div_bounds(2)[OF assms(3)])
  then have "n + 1 \<le> (k + 1) * c" by simp
  then have "rat_of_int (n + 1) \<le> of_int ((k + 1) * c)" by (simp only: of_int_le_iff)
  then have "of_int n + 1 \<le> (rat_of_int k + 1) * of_int c" by simp
  moreover have "?x + 1 / of_int c = (of_int n + 1) / of_int c"
    by (simp add: add_divide_distrib)
  ultimately have "?x + 1 / of_int c \<le> rat_of_int k + 1"
    by (simp only: pos_divide_le_eq[OF c])
  with fl_div_err[OF assms] have up: "fl ?x < of_int k + 1" by linarith
  show ?thesis using lo up unfolding k_def[symmetric] by (intro floor_unique) auto
qed

lemma ceil_truediv:
  fixes n c :: int
  assumes "0 < n" "n < 2 ^ 53" "c \<noteq> 0"
  shows "\<lceil>fl (of_int n / of_int c)\<rceil> = \<lceil>rat_of_int n / of_int c\<rceil>"
proof (cases "0 < c")
  case True
  then show ?thesis using assms by (intro ceil_fl_div)
next
  case False
  with assms have c: "0 < - c" by simp
  have e: "rat_of_int n / of_int c = - (of_int n / of_int (- c))" by simp
  show ?thesis
    unfolding e fl_uminus ceiling_minus
    using floor_fl_div[OF assms(1,2) c] by simp
qed

lemma two_step_err:
  fixes a s :: rat
  assumes "0 < a" "0 < s"
  shows "\<bar>fl (a * fl s) - a * s\<bar> \<le> 3 * (a * s) / 2 ^ 53"
proof -
  define t where "t = fl s"
  have t: "0 < t" unfolding t_def using assms(2) by (rule fl_pos)
  have x: "0 < a * s" and y: "0 < a * t" using assms t by simp_all
  have "\<bar>t - s\<bar> \<le> s / 2 ^ 53" unfolding t_def using assms(2) by (rule fl_rel_err)
  then have "a * \<bar>t - s\<bar> \<le> a * (s / 2 ^ 53)" using assms(1) by (intro mult_left_mono) auto
  moreover have "\<bar>a * t - a * s\<bar> = a * \<bar>t - s\<bar>"
    using assms(1) by (simp add: abs_mult flip: right_diff_distrib)
  ultimately have e2: "\<bar>a * t - a * s\<bar> \<le> (a * s) / 2 ^ 53" by simp
  have e3: "\<bar>fl (a * t) - a * t\<bar> \<le> (a * t) / 2 ^ 53" using y by (rule fl_rel_err)
  have "(a * s) / 2 ^ 53 \<le> a * s" using x by simp
  with e2 have "a * t \<le> 2 * (a * s)" by linarith
  then have "(a * t) / 2 ^ 53 \<le> 2 * (a * s) / 2 ^ 53" by (simp add: divide_right_mono)
  with e2 e3 show ?thesis unfolding t_def[symmetric] by linarith
qed

lemma int_gap:
  fixes x :: rat and d m K :: int
  assumes "0 < d" "x * of_int d = of_int m"
  shows "of_int K < x \<Longrightarrow> of_int K + 1 / of_int d \<le> x"
    and "x < of_int K \<Longrightarrow> x + 1 / of_int d \<le> of_int K"
proof -
  have d: "(0::rat) < of_int d" using assms by simp
  have x: "x = of_int m / of_int d" using assms(2) d by (simp add: field_simps)
  {
    assume "of_int K < x"
    then have "K * d < m" unfolding x by (simp only: int_div_bounds(1)[OF assms(1)])
    then have "K * d + 1 \<le> m" by simp
    then have "rat_of_int (K * d + 1) \<le> of_int m" by (simp only: of_int_le_iff)
    moreover have "(rat_of_int K + 1 / of_int d) * of_int d = of_int (K * d + 1)"
      using d by (simp add: distrib_right)
    ultimately show "of_int K + 1 / of_int d \<le> x"
      unfolding x by (simp only: pos_le_divide_eq[OF d])
  }
  {
    assume "x < of_int K"
    then have "m < K * d" unfolding x by (simp only: int_div_bounds(2)[OF assms(1)])
    then have "m + 1 \<le> K * d" by simp
    then have "rat_of_int (m + 1) \<le> of_int (K * d)" by (simp only: of_int_le_iff)
    moreover have "x + 1 / of_int d = of_int (m + 1) / of_int d"
      unfolding x by (simp add: add_divide_distrib)
    moreover have "rat_of_int K * of_int d = of_int (K * d)" by simp
    ultimately show "x + 1 / of_int d \<le> of_int K"
      by (simp only: pos_divide_le_eq[OF d])
  }
qed

lemma float_of_int_exact: "\<bar>a\<bar> < 2 ^ 53 \<Longrightarrow> float_of_int a = of_int a"
  by (simp add: float_of_int_def fl_of_int)

lemma fit_bracket:
  fixes a d m :: int and s :: rat
  assumes "0 < a" "a < 2 ^ 53" "0 < s" "0 < d" "of_int a * s * of_int d = of_int m" "m \<le> 2 ^ 51"
  shows "\<lceil>of_int a * s\<rceil> - 1 \<le> \<lfloor>fmul a (fl s)\<rfloor>" "\<lfloor>fmul a (fl s)\<rfloor> \<le> \<lfloor>of_int a * s\<rfloor>"
proof -
  define x where "x = rat_of_int a * s"
  define p where "p = fmul a (fl s)"
  have a: "(0::rat) < of_int a" using assms(1) by simp
  have d: "(0::rat) < of_int d" using assms(4) by simp
  have x: "0 < x" unfolding x_def using a assms(3) by simp
  have p: "p = fl (of_int a * fl s)"
    unfolding p_def fmul_def using assms(1,2) by (simp add: float_of_int_exact)
  have err: "\<bar>p - x\<bar> \<le> 3 * x / 2 ^ 53"
    unfolding p x_def using a assms(3) by (rule two_step_err)
  have xd: "x * of_int d = of_int m" using assms(5) by (simp add: x_def)
  have "rat_of_int m \<le> 2 ^ 51" using assms(6) by (metis of_int_le_iff of_int_numeral of_int_power)
  then have "x * of_int d \<le> 2 ^ 51" using xd by simp
  then have "3 * x / 2 ^ 53 * of_int d < 1" by simp
  then have "3 * x / 2 ^ 53 < 1 / of_int d" by (simp only: pos_less_divide_eq[OF d])
  with err have e: "\<bar>p - x\<bar> < 1 / of_int d" by linarith
  have "rat_of_int (\<lceil>x\<rceil> - 1) < x" by simp linarith
  from int_gap(1)[OF assms(4) xd this] e have "rat_of_int (\<lceil>x\<rceil> - 1) \<le> p" by linarith
  then show "\<lceil>of_int a * s\<rceil> - 1 \<le> \<lfloor>fmul a (fl s)\<rfloor>"
    unfolding x_def[symmetric] p_def[symmetric] by (simp only: le_floor_iff)
  have "x < rat_of_int (\<lfloor>x\<rfloor> + 1)" by simp linarith
  from int_gap(2)[OF assms(4) xd this] e have "p < rat_of_int (\<lfloor>x\<rfloor> + 1)" by linarith
  then have "\<lfloor>p\<rfloor> < \<lfloor>x\<rfloor> + 1" by (simp only: floor_less_iff)
  then show "\<lfloor>fmul a (fl s)\<rfloor> \<le> \<lfloor>of_int a * s\<rfloor>"
    unfolding x_def[symmetric] p_def[symmetric] by simp
qed

lemma fmul_pos: "0 < a \<Longrightarrow> 0 < s \<Longrightarrow> 0 < fmul a s"
  unfolding fmul_def float_of_int_def by (intro fl_pos mult_pos_pos) simp_all

lemma py_int_nonneg: "0 \<le> x \<Longrightarrow> py_int x = \<lfloor>x\<rfloor>"
  by (simp add: py_int_def)

section \<open>The square root\<close>

lemma isqrt_spec:
  "0 \<le> n \<Longrightarrow> 0 \<le> isqrt n \<and> isqrt n * isqrt n \<le> n \<and> n < (isqrt n + 1) * (isqrt n + 1)"
proof (induction n rule: isqrt.induct)
  case (1 n)
  show ?case
  proof (cases "n \<le> 0")
    case True
    with 1(2) have "n = 0" by simp
    then show ?thesis by (simp add: isqrt.simps[of 0])
  next
    case False
    define q where "q = isqrt (n div 4)"
    have "0 \<le> n div 4" using 1(2) by simp
    from 1(1)[OF False this]
    have q: "0 \<le> q" "q * q \<le> n div 4" "n div 4 < (q + 1) * (q + 1)"
      unfolding q_def by simp_all
    have n4: "4 * (n div 4) \<le> n" "n < 4 * (n div 4) + 4" by presburger+
    have sq: "(2 * q) * (2 * q) = 4 * (q * q)"
      "(2 * q + 1 + 1) * (2 * q + 1 + 1) = 4 * ((q + 1) * (q + 1))"
      by (simp_all add: algebra_simps)
    have lo: "(2 * q) * (2 * q) \<le> n" using q(2) n4(1) sq(1) by linarith
    have hi: "n < (2 * q + 1 + 1) * (2 * q + 1 + 1)" using q(3) n4(2) sq(2) by linarith
    have e: "isqrt n = (if (2 * q + 1) * (2 * q + 1) \<le> n then 2 * q + 1 else 2 * q)"
      using False by (subst isqrt.simps) (simp add: q_def Let_def)
    show ?thesis
    proof (cases "(2 * q + 1) * (2 * q + 1) \<le> n")
      case True
      then show ?thesis using e q(1) hi by simp
    next
      case False
      then show ?thesis using e q(1) lo by simp
    qed
  qed
qed

lemma expo_int_range:
  fixes n :: int
  assumes "1 \<le> n" "n < 2 ^ 52"
  shows "0 \<le> expo (of_int n)" "expo (of_int n) \<le> 51"
proof -
  let ?x = "rat_of_int n"
  have x: "0 < ?x" using assms by simp
  have b: "2 powi expo ?x \<le> ?x" "?x < 2 powi (expo ?x + 1)" using expo_bounds[OF x] by auto
  have x1: "1 \<le> ?x" using assms(1) by simp
  have x2: "?x < 2 powi 52"
    using assms(2) by (metis of_int_less_iff of_int_numeral of_int_power power_int_numeral)
  show "0 \<le> expo ?x"
  proof (rule ccontr)
    assume "\<not> 0 \<le> expo ?x"
    then have "(2::rat) powi (expo ?x + 1) \<le> 2 powi 0" by (intro power_int_increasing) auto
    with b(2) x1 show False by simp
  qed
  show "expo ?x \<le> 51"
  proof (rule ccontr)
    assume "\<not> expo ?x \<le> 51"
    then have "(2::rat) powi 52 \<le> 2 powi expo ?x" by (intro power_int_increasing) auto
    with b(1) x2 show False by linarith
  qed
qed

lemma square_mono_int: "0 \<le> (a::int) \<Longrightarrow> a \<le> b \<Longrightarrow> a * a \<le> b * b"
  by (simp add: mult_mono)

lemma square_less_int: "0 \<le> (a::int) \<Longrightarrow> a < b \<Longrightarrow> a * a < b * b"
  by (simp add: mult_strict_mono')

lemma math_sqrt_int:
  fixes n :: int
  assumes "1 \<le> n" "n < 2 ^ 52"
  shows "\<exists>U f. 2 ^ 27 \<le> U \<and> 0 \<le> f \<and> f * f \<le> n * U * U \<and> n * U * U < (f + 1) * (f + 1) \<and>
           math_sqrt (of_int n) =
             of_int (if n * U * U \<le> f * f + f then f else f + 1) / of_int U"
proof -
  let ?x = "rat_of_int n"
  define e where "e = expo ?x div 2"
  have e: "0 \<le> e" "e \<le> 25" using expo_int_range[OF assms] unfolding e_def by presburger+
  define j where "j = nat (52 - e)"
  define U :: int where "U = 2 ^ j"
  have j: "27 \<le> j" using e unfolding j_def by simp
  have "(2::int) ^ 27 \<le> 2 ^ j" using j by (intro power_increasing) simp_all
  then have U27: "2 ^ 27 \<le> U" unfolding U_def .
  then have Upos: "0 < U" by simp
  define u :: rat where "u = 2 powi (e - 52)"
  have u: "u = 1 / of_int U"
  proof -
    have "e - 52 = - int j" using e unfolding j_def by simp
    then have "u = inverse (2 ^ j)" unfolding u_def by (simp add: power_int_def power_one_over inverse_eq_divide)
    then show ?thesis unfolding U_def by (simp add: divide_inverse)
  qed
  have Ur: "(0::rat) < of_int U" using Upos by simp
  define f where "f = isqrt (n * U * U)"
  have nUU: "0 \<le> n * U * U" using assms(1) Upos by simp
  have f: "0 \<le> f" "f * f \<le> n * U * U" "n * U * U < (f + 1) * (f + 1)"
    using isqrt_spec[OF nUU] unfolding f_def by simp_all
  have y: "?x / (u * u) = of_int (n * U * U)" unfolding u using Ur by simp
  have lt: "rat_of_int (n * U * U) < of_int (f * f + f) + 1 / 4 \<longleftrightarrow> n * U * U \<le> f * f + f"
  proof
    assume a: "rat_of_int (n * U * U) < of_int (f * f + f) + 1 / 4"
    show "n * U * U \<le> f * f + f"
    proof (rule ccontr)
      assume "\<not> n * U * U \<le> f * f + f"
      then have "f * f + f + 1 \<le> n * U * U" by simp
      then have "rat_of_int (f * f + f + 1) \<le> of_int (n * U * U)" by (simp only: of_int_le_iff)
      with a show False by simp
    qed
  next
    assume "n * U * U \<le> f * f + f"
    then have "rat_of_int (n * U * U) \<le> of_int (f * f + f)" by (simp only: of_int_le_iff)
    then show "rat_of_int (n * U * U) < of_int (f * f + f) + 1 / 4" by linarith
  qed
  have gt: "rat_of_int (f * f + f) + 1 / 4 < of_int (n * U * U)" if "\<not> n * U * U \<le> f * f + f"
  proof -
    from that have "f * f + f + 1 \<le> n * U * U" by simp
    then have "rat_of_int (f * f + f + 1) \<le> of_int (n * U * U)" by (simp only: of_int_le_iff)
    then show ?thesis by simp
  qed
  have "math_sqrt ?x =
      of_int (if n * U * U \<le> f * f + f then f else f + 1) * u"
    using assms(1) lt gt
    unfolding math_sqrt_def Let_def e_def[symmetric] u_def[symmetric] y floor_of_int f_def[symmetric]
    by (simp del: of_int_add of_int_mult)
  then have "math_sqrt ?x = of_int (if n * U * U \<le> f * f + f then f else f + 1) / of_int U"
    unfolding u by simp
  with U27 f show ?thesis by blast
qed

lemma ceil_math_sqrt:
  fixes n k :: int
  assumes "1 \<le> n" "n < 2 ^ 52" "1 \<le> k" "(k - 1) * (k - 1) < n" "n \<le> k * k"
  shows "\<lceil>math_sqrt (of_int n)\<rceil> = k"
proof -
  obtain U f where U27: "2 ^ 27 \<le> U" and f: "0 \<le> f" "f * f \<le> n * U * U"
    "n * U * U < (f + 1) * (f + 1)"
    and ms: "math_sqrt (of_int n) = of_int (if n * U * U \<le> f * f + f then f else f + 1) / of_int U"
    using math_sqrt_int[OF assms(1,2)] by blast
  define r where "r = (if n * U * U \<le> f * f + f then f else f + 1)"
  have Upos: "0 < U" using U27 by simp
  have UU: "0 < U * U" using Upos by simp
  have r: "f \<le> r" "r \<le> f + 1" unfolding r_def by simp_all
  \<comment> \<open>upper bound\<close>
  have kk: "n * U * U \<le> (k * U) * (k * U)"
  proof -
    have "n * (U * U) \<le> (k * k) * (U * U)" using assms(5) UU by (intro mult_right_mono) simp_all
    then show ?thesis by (simp add: algebra_simps)
  qed
  have fk: "f \<le> k * U"
  proof (rule ccontr)
    assume "\<not> f \<le> k * U"
    then have "k * U < f" by simp
    moreover have "0 \<le> k * U" using assms(3) Upos by simp
    ultimately have "(k * U) * (k * U) < f * f" by (intro square_less_int)
    with kk f(2) show False by linarith
  qed
  have up: "r \<le> k * U"
  proof (cases "n * U * U \<le> f * f + f")
    case True
    then show ?thesis using fk by (simp add: r_def)
  next
    case False
    have "f \<noteq> k * U"
    proof
      assume "f = k * U"
      then have "n * U * U \<le> f * f" using kk by simp
      with False f(1) show False by linarith
    qed
    with fk False show ?thesis by (simp add: r_def)
  qed
  \<comment> \<open>lower bound\<close>
  define g where "g = (k - 1) * U"
  have g0: "0 \<le> g" unfolding g_def using assms(3) Upos by simp
  have lo: "g < r"
  proof (rule ccontr)
    assume "\<not> g < r"
    then have "f + 1 \<le> g + 1" using r by linarith
    moreover have "0 \<le> f + 1" using f(1) by simp
    ultimately have "(f + 1) * (f + 1) \<le> (g + 1) * (g + 1)" by (intro square_mono_int)
    then have 1: "n * U * U < g * g + 2 * g + 1" using f(3) by (simp add: algebra_simps)
    have "(k - 1) * (k - 1) + 1 \<le> n" using assms(4) by simp
    then have "((k - 1) * (k - 1) + 1) * (U * U) \<le> n * (U * U)"
      using UU by (intro mult_right_mono) simp_all
    then have 2: "g * g + U * U \<le> n * U * U" unfolding g_def by (simp add: algebra_simps)
    from 1 2 have "U * U \<le> 2 * g" by linarith
    then have "U * U \<le> (2 * (k - 1)) * U" unfolding g_def by (simp add: algebra_simps)
    then have 3: "U \<le> 2 * (k - 1)" using Upos by simp
    have "k - 1 < 2 ^ 26"
    proof (rule ccontr)
      assume "\<not> k - 1 < 2 ^ 26"
      then have "(2 ^ 26 :: int) \<le> k - 1" by simp
      then have "(2 ^ 26 :: int) * 2 ^ 26 \<le> (k - 1) * (k - 1)" by (intro square_mono_int) simp_all
      with assms(2,4) show False by simp
    qed
    with 3 U27 show False by simp
  qed
  have "rat_of_int (k - 1) < of_int r / of_int U"
    using lo unfolding g_def by (simp only: int_div_bounds(1)[OF Upos])
  moreover have "rat_of_int r / of_int U \<le> of_int k"
    using up by (simp only: int_div_bounds(3)[OF Upos])
  ultimately show ?thesis
    unfolding ms r_def[symmetric] by (intro ceiling_unique) simp_all
qed

text \<open>
  For an integer \<open>n\<close> below \<open>2^52\<close>, \<open>math_sqrt\<close> returns \<open>r / U\<close> with \<open>U\<close> a power
  of two, a 53-bit significand \<open>r\<close>, and \<open>(r - 1/2)\<^sup>2 \<le> n * U\<^sup>2 \<le> (r + 1/2)\<^sup>2\<close>: the
  double nearest to the square root of \<open>n\<close>.
\<close>

lemma math_sqrt_nearest:
  fixes n :: int
  assumes "1 \<le> n" "n < 2 ^ 52"
  shows "\<exists>j r. math_sqrt (of_int n) = of_int r / 2 ^ j \<and>
           2 ^ 52 \<le> r \<and> r \<le> 2 ^ 53 \<and>
           (2 * r - 1) * (2 * r - 1) \<le> 4 * (n * 2 ^ j * 2 ^ j) \<and>
           4 * (n * 2 ^ j * 2 ^ j) \<le> (2 * r + 1) * (2 * r + 1)"
proof -
  let ?x = "rat_of_int n"
  have x: "0 < ?x" using assms by simp
  define E where "E = expo ?x"
  define e where "e = E div 2"
  have Er: "0 \<le> E" "E \<le> 51" using expo_int_range[OF assms] unfolding E_def by simp_all
  have e: "0 \<le> e" "e \<le> 25" "2 * e \<le> E" "E \<le> 2 * e + 1" using Er unfolding e_def by presburger+
  define j where "j = nat (52 - e)"
  define U :: int where "U = 2 ^ j"
  have Upos: "0 < U" unfolding U_def by simp
  have Ur: "(0::rat) < of_int U" using Upos by simp
  define u :: rat where "u = 2 powi (e - 52)"
  have u: "u = 1 / of_int U"
  proof -
    have "e - 52 = - int j" using e unfolding j_def by simp
    then have "u = inverse (2 ^ j)"
      unfolding u_def by (simp add: power_int_def power_one_over inverse_eq_divide)
    then show ?thesis unfolding U_def by (simp add: divide_inverse)
  qed
  \<comment> \<open>the scaled argument lies in \<open>[2^104, 2^106)\<close>\<close>
  have b: "2 powi E \<le> ?x" "?x < 2 powi (E + 1)" using expo_bounds[OF x] unfolding E_def by auto
  have "(2::rat) powi (2 * e) \<le> 2 powi E" using e(3) by (intro power_int_increasing) auto
  with b(1) have "(2::rat) powi (2 * e) \<le> ?x" by linarith
  then have "rat_of_int (2 ^ nat (2 * e)) \<le> of_int n" using e(1) by (simp add: powi_nat)
  then have lo: "2 ^ nat (2 * e) \<le> n" by (simp only: of_int_le_iff)
  have "(2::rat) powi (E + 1) \<le> 2 powi (2 * e + 2)" using e(4) by (intro power_int_increasing) auto
  with b(2) have "?x < (2::rat) powi (2 * e + 2)" by linarith
  then have "rat_of_int n < of_int (2 ^ nat (2 * e + 2))" using e(1) by (simp add: powi_nat)
  then have hi: "n < 2 ^ nat (2 * e + 2)" by (simp only: of_int_less_iff)
  have UU: "U * U = 2 ^ (j + j)" unfolding U_def by (simp add: power_add)
  have jj: "nat (2 * e) + (j + j) = 104" "nat (2 * e + 2) + (j + j) = 106"
    using e unfolding j_def by simp_all
  have p104: "(2::int) ^ nat (2 * e) * 2 ^ (j + j) = 2 ^ 104"
    and p106: "(2::int) ^ nat (2 * e + 2) * 2 ^ (j + j) = 2 ^ 106"
    unfolding power_add[symmetric] jj by (rule refl)+
  have "2 ^ nat (2 * e) * (U * U) \<le> n * (U * U)" using lo Upos by (intro mult_right_mono) simp_all
  then have "2 ^ 104 \<le> n * (U * U)" unfolding UU p104 .
  then have y_lo: "2 ^ 104 \<le> n * U * U" by (simp only: mult.assoc)
  have "n * (U * U) < 2 ^ nat (2 * e + 2) * (U * U)" using hi Upos by (intro mult_strict_right_mono) simp_all
  then have "n * (U * U) < 2 ^ 106" unfolding UU p106 .
  then have y_hi: "n * U * U < 2 ^ 106" by (simp only: mult.assoc)
  define f where "f = isqrt (n * U * U)"
  have nUU: "0 \<le> n * U * U" using assms(1) Upos by simp
  have f: "0 \<le> f" "f * f \<le> n * U * U" "n * U * U < (f + 1) * (f + 1)"
    using isqrt_spec[OF nUU] unfolding f_def by simp_all
  have f_lo: "2 ^ 52 \<le> f"
  proof (rule ccontr)
    assume "\<not> 2 ^ 52 \<le> f"
    then have "f + 1 \<le> 2 ^ 52" by simp
    moreover have "0 \<le> f + 1" using f(1) by simp
    ultimately have "(f + 1) * (f + 1) \<le> 2 ^ 52 * 2 ^ 52" by (intro square_mono_int)
    with f(3) y_lo show False by simp
  qed
  have f_hi: "f < 2 ^ 53"
  proof (rule ccontr)
    assume "\<not> f < 2 ^ 53"
    then have "(2 ^ 53 :: int) \<le> f" by simp
    then have "(2 ^ 53 :: int) * 2 ^ 53 \<le> f * f" by (intro square_mono_int) simp_all
    with f(2) y_hi show False by simp
  qed
  define r where "r = (if n * U * U \<le> f * f + f then f else f + 1)"
  have y: "?x / (u * u) = of_int (n * U * U)" unfolding u using Ur by simp
  have lt: "rat_of_int (n * U * U) < of_int (f * f + f) + 1 / 4 \<longleftrightarrow> n * U * U \<le> f * f + f"
  proof
    assume a: "rat_of_int (n * U * U) < of_int (f * f + f) + 1 / 4"
    show "n * U * U \<le> f * f + f"
    proof (rule ccontr)
      assume "\<not> n * U * U \<le> f * f + f"
      then have "f * f + f + 1 \<le> n * U * U" by simp
      then have "rat_of_int (f * f + f + 1) \<le> of_int (n * U * U)" by (simp only: of_int_le_iff)
      with a show False by simp
    qed
  next
    assume "n * U * U \<le> f * f + f"
    then have "rat_of_int (n * U * U) \<le> of_int (f * f + f)" by (simp only: of_int_le_iff)
    then show "rat_of_int (n * U * U) < of_int (f * f + f) + 1 / 4" by linarith
  qed
  have gt: "rat_of_int (f * f + f) + 1 / 4 < of_int (n * U * U)" if "\<not> n * U * U \<le> f * f + f"
  proof -
    from that have "f * f + f + 1 \<le> n * U * U" by simp
    then have "rat_of_int (f * f + f + 1) \<le> of_int (n * U * U)" by (simp only: of_int_le_iff)
    then show ?thesis by simp
  qed
  have "math_sqrt ?x = of_int r * u"
    using assms(1) lt gt
    unfolding math_sqrt_def Let_def E_def[symmetric] e_def[symmetric] u_def[symmetric] y
      floor_of_int f_def[symmetric] r_def
    by (simp del: of_int_add of_int_mult)
  then have ms: "math_sqrt ?x = of_int r / 2 ^ j" unfolding u U_def by simp
  have r1: "2 ^ 52 \<le> r" "r \<le> 2 ^ 53" using f_lo f_hi unfolding r_def by simp_all
  have near: "(2 * r - 1) * (2 * r - 1) \<le> 4 * (n * U * U) \<and>
              4 * (n * U * U) \<le> (2 * r + 1) * (2 * r + 1)"
  proof (cases "n * U * U \<le> f * f + f")
    case True
    then have "r = f" by (simp add: r_def)
    moreover have "(2 * f - 1) * (2 * f - 1) = 4 * (f * f) - 4 * f + 1"
      "(2 * f + 1) * (2 * f + 1) = 4 * (f * f + f) + 1" by (simp_all add: algebra_simps)
    ultimately show ?thesis using True f(1,2) f_lo by simp
  next
    case False
    then have "r = f + 1" by (simp add: r_def)
    moreover have "(2 * (f + 1) - 1) * (2 * (f + 1) - 1) = 4 * (f * f + f) + 1"
      "(2 * (f + 1) + 1) * (2 * (f + 1) + 1) = 4 * ((f + 1) * (f + 1)) + 4 * f + 5"
      by (simp_all add: algebra_simps)
    ultimately show ?thesis using False f(1,3) f_lo by simp
  qed
  from ms r1 near show ?thesis unfolding U_def by blast
qed

section \<open>Lemmas about the enumerator\<close>

lemma rfind_dot_bound: "rfind_dot nm = Some i \<Longrightarrow> i < length nm \<and> nm ! i = CHR ''.''"
  by (induction nm arbitrary: i) (auto split: option.splits if_splits)

lemma rfind_dot_None: "rfind_dot nm = None \<longleftrightarrow> CHR ''.'' \<notin> set nm"
  by (induction nm) (auto split: option.splits)

lemma rfind_dot_append:
  "CHR ''.'' \<notin> set ext \<Longrightarrow> rfind_dot (stem @ CHR ''.'' # ext) = Some (length stem)"
  by (induction stem) (auto simp: rfind_dot_None split: option.splits)

lemma lower_char_dot: "lower_char c = CHR ''.'' \<longleftrightarrow> c = CHR ''.''"
proof
  assume l: "lower_char c = CHR ''.''"
  show "c = CHR ''.''"
  proof (rule ccontr)
    assume ne: "c \<noteq> CHR ''.''"
    with l have up: "CHR ''A'' \<le> c" "c \<le> CHR ''Z''" and
      eq: "char_of (of_char c + (32::nat)) = CHR ''.''"
      by (auto simp: lower_char_def split: if_splits)
    from up have "65 \<le> (of_char c :: nat)" "(of_char c :: nat) \<le> 90"
      by (simp_all add: less_eq_char_def)
    moreover from eq have "(of_char (char_of (of_char c + (32::nat))) :: nat) = of_char (CHR ''.'')"
      by simp
    ultimately show False by simp
  qed
next
  show "c = CHR ''.'' \<Longrightarrow> lower_char c = CHR ''.''" by (simp add: lower_char_def less_eq_char_def)
qed

lemma lower_dot_mem: "CHR ''.'' \<in> set (lower s) \<longleftrightarrow> CHR ''.'' \<in> set s"
proof (induction s)
  case Nil
  then show ?case by (simp add: lower_def)
next
  case (Cons c cs)
  have "CHR ''.'' = lower_char c \<longleftrightarrow> CHR ''.'' = c"
    using lower_char_dot[of c] by auto
  with Cons show ?case by (simp add: lower_def)
qed

lemma lower_Cons_dot: "lower (CHR ''.'' # ext) = CHR ''.'' # lower ext"
  by (simp add: lower_def lower_char_dot)

lemma IMAGE_EXTS_dot: "CHR ''.'' # t \<in> IMAGE_EXTS \<longleftrightarrow>
   t \<in> {''jpg'', ''jpeg'', ''png'', ''bmp'', ''gif'', ''tif'', ''tiff'', ''webp''}"
  by (auto simp: IMAGE_EXTS_def)

lemma exts_no_dot:
  "t \<in> {''jpg'', ''jpeg'', ''png'', ''bmp'', ''gif'', ''tif'', ''tiff'', ''webp''} \<Longrightarrow>
   CHR ''.'' \<notin> set t \<and> t \<noteq> []"
  by auto

lemma IMAGE_EXTS_nonempty: "[] \<notin> IMAGE_EXTS"
  by (simp add: IMAGE_EXTS_def)

lemma has_ext_iff:
  "lower (suffix nm) \<in> IMAGE_EXTS \<longleftrightarrow>
   (\<exists>stem ext. nm = stem @ CHR ''.'' # ext \<and> stem \<noteq> [] \<and>
       lower ext \<in> {''jpg'', ''jpeg'', ''png'', ''bmp'', ''gif'', ''tif'', ''tiff'', ''webp''})"
proof
  assume a: "lower (suffix nm) \<in> IMAGE_EXTS"
  then have ne: "suffix nm \<noteq> []" using IMAGE_EXTS_nonempty by (auto simp: lower_def)
  then obtain i where i: "rfind_dot nm = Some i" "0 < i" "i + 1 < length nm" "suffix nm = drop i nm"
    by (auto simp: suffix_def split: option.splits if_splits)
  from rfind_dot_bound[OF i(1)] have "drop i nm = CHR ''.'' # drop (Suc i) nm"
    by (metis Cons_nth_drop_Suc)
  moreover have "nm = take i nm @ drop i nm" by simp
  ultimately have nm: "nm = take i nm @ CHR ''.'' # drop (Suc i) nm" by simp
  have "take i nm \<noteq> []" using i by auto
  moreover have "lower (drop (Suc i) nm) \<in> {''jpg'', ''jpeg'', ''png'', ''bmp'', ''gif'', ''tif'', ''tiff'', ''webp''}"
    using a i(4) \<open>drop i nm = CHR ''.'' # drop (Suc i) nm\<close>
    by (simp only: lower_Cons_dot IMAGE_EXTS_dot)
  ultimately show "\<exists>stem ext. nm = stem @ CHR ''.'' # ext \<and> stem \<noteq> [] \<and>
       lower ext \<in> {''jpg'', ''jpeg'', ''png'', ''bmp'', ''gif'', ''tif'', ''tiff'', ''webp''}"
    using nm by blast
next
  assume "\<exists>stem ext. nm = stem @ CHR ''.'' # ext \<and> stem \<noteq> [] \<and>
       lower ext \<in> {''jpg'', ''jpeg'', ''png'', ''bmp'', ''gif'', ''tif'', ''tiff'', ''webp''}"
  then obtain stem ext where nm: "nm = stem @ CHR ''.'' # ext" and st: "stem \<noteq> []"
    and le: "lower ext \<in> {''jpg'', ''jpeg'', ''png'', ''bmp'', ''gif'', ''tif'', ''tiff'', ''webp''}"
    by blast
  from exts_no_dot[OF le] have "CHR ''.'' \<notin> set (lower ext)" and "lower ext \<noteq> []"
    by blast+
  then have nd: "CHR ''.'' \<notin> set ext" and ne: "ext \<noteq> []"
    by (simp_all add: lower_dot_mem) (simp add: lower_def)
  have "rfind_dot nm = Some (length stem)" unfolding nm by (rule rfind_dot_append[OF nd])
  moreover have "0 < length stem" using st by simp
  moreover have "length stem + 1 < length nm" using ne by (simp add: nm)
  ultimately have "suffix nm = CHR ''.'' # ext" by (simp add: suffix_def nm)
  then show "lower (suffix nm) \<in> IMAGE_EXTS" using le by (simp only: lower_Cons_dot IMAGE_EXTS_dot)
qed

lemma sorted_names_unique:
  assumes "distinct (map entry_name xs)" "mset ys = mset xs"
  shows "sort_key entry_name ys = sort_key entry_name xs"
proof -
  let ?xs = "sort_key entry_name xs" and ?ys = "sort_key entry_name ys"
  have m: "mset ?ys = mset ?xs" using assms(2) by simp
  then have mm: "mset (map entry_name ?ys) = mset (map entry_name ?xs)"
    by (metis mset_map)
  have dx: "distinct (map entry_name ?xs)"
    using assms(1) by (metis mset_eq_imp_distinct_iff mset_map mset_sort)
  then have dy: "distinct (map entry_name ?ys)"
    using mm by (metis mset_eq_imp_distinct_iff)
  have "set (map entry_name ?ys) = set (map entry_name ?xs)"
    using mm by (rule mset_eq_setD)
  then have "map entry_name ?ys = map entry_name ?xs"
    using dx dy by (intro sorted_distinct_set_unique) simp_all
  moreover have "inj_on entry_name (set ?ys \<union> set ?xs)"
    using assms(1) mset_eq_setD[OF assms(2)] by (simp add: distinct_map)
  ultimately show ?thesis by (simp add: inj_on_map_eq_map)
qed

section \<open>Lemmas about the renderer and the composer\<close>

lemma load_and_fit_returns:
  assumes "image_size p = Some (sw, sh)" "sw \<noteq> 0" "sh \<noteq> 0"
  shows "load_and_fit p w h =
     Inr \<lparr>cell_size = (w, h),
          resized = (max 1 (py_int (fmul sw (min (fl (of_int w / of_int sw)) (fl (of_int h / of_int sh))))),
                     max 1 (py_int (fmul sh (min (fl (of_int w / of_int sw)) (fl (of_int h / of_int sh)))))),
          offset = ((w - max 1 (py_int (fmul sw (min (fl (of_int w / of_int sw)) (fl (of_int h / of_int sh)))))) div 2,
                    (h - max 1 (py_int (fmul sh (min (fl (of_int w / of_int sw)) (fl (of_int h / of_int sh)))))) div 2)\<rparr>"
  using assms by (simp add: load_and_fit_def image_open_def truediv_def Let_def)


lemma max_one_mono: "(a::int) \<le> b \<Longrightarrow> max 1 a \<le> max 1 b"
  by simp

lemma load_and_fit_floor:
  assumes "image_size p = Some (sw, sh)" "0 < sw" "0 < sh" "0 < w" "0 < h"
  shows "load_and_fit p w h =
     Inr \<lparr>cell_size = (w, h),
          resized = (max 1 \<lfloor>fmul sw (fl (min (of_int w / of_int sw) (of_int h / of_int sh)))\<rfloor>,
                     max 1 \<lfloor>fmul sh (fl (min (of_int w / of_int sw) (of_int h / of_int sh)))\<rfloor>),
          offset = ((w - max 1 \<lfloor>fmul sw (fl (min (of_int w / of_int sw) (of_int h / of_int sh)))\<rfloor>) div 2,
                    (h - max 1 \<lfloor>fmul sh (fl (min (of_int w / of_int sw) (of_int h / of_int sh)))\<rfloor>) div 2)\<rparr>"
proof -
  let ?s = "min (rat_of_int w / of_int sw) (of_int h / of_int sh)"
  have s: "0 < ?s" using assms by simp
  then have "0 < fl ?s" by (rule fl_pos)
  then have "0 \<le> fmul sw (fl ?s)" "0 \<le> fmul sh (fl ?s)"
    using assms fmul_pos[of sw "fl ?s"] fmul_pos[of sh "fl ?s"] by simp_all
  then have "py_int (fmul sw (fl ?s)) = \<lfloor>fmul sw (fl ?s)\<rfloor>"
    "py_int (fmul sh (fl ?s)) = \<lfloor>fmul sh (fl ?s)\<rfloor>"
    by (simp_all add: py_int_nonneg)
  moreover have "sw \<noteq> 0" "sh \<noteq> 0" using assms by simp_all
  ultimately show ?thesis
    using load_and_fit_returns[OF assms(1), of w h] by (simp add: fl_min)
qed

lemma scale_bracket:
  fixes sw sh w h :: int
  assumes "0 < sw" "0 < sh" "0 < w" "0 < h"
    and "sw < 2 ^ 53" "sh < 2 ^ 53" "w \<le> 2 ^ 51" "h \<le> 2 ^ 51"
    and "min (sw * h) (sh * w) \<le> 2 ^ 51"
  defines "s \<equiv> min (rat_of_int w / of_int sw) (of_int h / of_int sh)"
  shows "\<lceil>of_int sw * s\<rceil> - 1 \<le> \<lfloor>fmul sw (fl s)\<rfloor>"
    and "\<lfloor>fmul sw (fl s)\<rfloor> \<le> \<lfloor>of_int sw * s\<rfloor>"
    and "\<lceil>of_int sh * s\<rceil> - 1 \<le> \<lfloor>fmul sh (fl s)\<rfloor>"
    and "\<lfloor>fmul sh (fl s)\<rfloor> \<le> \<lfloor>of_int sh * s\<rfloor>"
proof -
  have s: "0 < s" unfolding s_def using assms(1-4) by simp
  have cmp: "rat_of_int w / of_int sw \<le> of_int h / of_int sh \<longleftrightarrow> sh * w \<le> sw * h"
  proof -
    have "rat_of_int w / of_int sw \<le> of_int h / of_int sh
          \<longleftrightarrow> rat_of_int w * of_int sh \<le> of_int h * of_int sw"
      using assms(1,2) by (simp add: field_simps)
    also have "\<dots> \<longleftrightarrow> rat_of_int (sh * w) \<le> of_int (sw * h)" by (simp add: mult.commute)
    also have "\<dots> \<longleftrightarrow> sh * w \<le> sw * h" by (simp only: of_int_le_iff)
    finally show ?thesis .
  qed
  have "\<exists>d m. 0 < d \<and> rat_of_int sw * s * of_int d = of_int m \<and> m \<le> 2 ^ 51"
  proof (cases "rat_of_int w / of_int sw \<le> of_int h / of_int sh")
    case True
    then have "rat_of_int sw * s * of_int 1 = of_int w" using assms(1) by (simp add: s_def min_def)
    with assms(7) show ?thesis by (metis zero_less_one)
  next
    case False
    then have "rat_of_int sw * s * of_int sh = of_int (sw * h)"
      using assms(2) by (simp add: s_def min_def)
    moreover from False have "sw * h \<le> 2 ^ 51" using assms(9) unfolding cmp by simp
    ultimately show ?thesis using assms(2) by blast
  qed
  then obtain d m where dm: "0 < d" "rat_of_int sw * s * of_int d = of_int m" "m \<le> 2 ^ 51"
    by blast
  from fit_bracket[OF assms(1,5) s dm]
  show "\<lceil>of_int sw * s\<rceil> - 1 \<le> \<lfloor>fmul sw (fl s)\<rfloor>" "\<lfloor>fmul sw (fl s)\<rfloor> \<le> \<lfloor>of_int sw * s\<rfloor>"
    by simp_all
  have "\<exists>d m. 0 < d \<and> rat_of_int sh * s * of_int d = of_int m \<and> m \<le> 2 ^ 51"
  proof (cases "rat_of_int w / of_int sw \<le> of_int h / of_int sh")
    case True
    then have "rat_of_int sh * s * of_int sw = of_int (sh * w)"
      using assms(1) by (simp add: s_def min_def)
    moreover from True have "sh * w \<le> 2 ^ 51" using assms(9) unfolding cmp by simp
    ultimately show ?thesis using assms(1) by blast
  next
    case False
    then have "rat_of_int sh * s * of_int 1 = of_int h" using assms(2) by (simp add: s_def min_def)
    with assms(8) show ?thesis by (metis zero_less_one)
  qed
  then obtain d' m' where dm': "0 < d'" "rat_of_int sh * s * of_int d' = of_int m'" "m' \<le> 2 ^ 51"
    by blast
  from fit_bracket[OF assms(2,6) s dm']
  show "\<lceil>of_int sh * s\<rceil> - 1 \<le> \<lfloor>fmul sh (fl s)\<rfloor>" "\<lfloor>fmul sh (fl s)\<rfloor> \<le> \<lfloor>of_int sh * s\<rfloor>"
    by simp_all
qed

text \<open>
  The sizes the imaging library admits are enough for \<open>scale_bracket\<close>: an image that
  opens has at most 178 956 970 pixels, which is below \<open>2^28\<close>, and the sides of a
  cell are C integers.
\<close>

lemma admitted_sizes:
  fixes sw sh w h :: int
  assumes "1 \<le> sw" "1 \<le> sh" "sw * sh \<le> 2 ^ 28" "1 \<le> w" "w < 2 ^ 31" "1 \<le> h" "h < 2 ^ 31"
  shows "sw < 2 ^ 53" "sh < 2 ^ 53" "w \<le> 2 ^ 51" "h \<le> 2 ^ 51"
    and "min (sw * h) (sh * w) \<le> 2 ^ 51"
proof -
  have "sw * 1 \<le> sw * sh" "1 * sh \<le> sw * sh"
    using assms(1,2) by (intro mult_left_mono mult_right_mono; simp)+
  then have b: "sw \<le> 2 ^ 28" "sh \<le> 2 ^ 28" using assms(3) by simp_all
  then show "sw < 2 ^ 53" "sh < 2 ^ 53" by simp_all
  show "w \<le> 2 ^ 51" "h \<le> 2 ^ 51" using assms(5,7) by simp_all
  show "min (sw * h) (sh * w) \<le> 2 ^ 51"
  proof (cases "sw * h \<le> 2 ^ 51")
    case True
    then show ?thesis by simp
  next
    case False
    have "2 ^ 20 < sw"
    proof (rule ccontr)
      assume "\<not> 2 ^ 20 < sw"
      then have "sw * h \<le> 2 ^ 20 * 2 ^ 31" using assms(1,6,7) by (intro mult_mono) simp_all
      with False show False by simp
    qed
    have "sh < 2 ^ 8"
    proof (rule ccontr)
      assume "\<not> sh < 2 ^ 8"
      then have "(2 ^ 20 + 1) * 2 ^ 8 \<le> sw * sh"
        using \<open>2 ^ 20 < sw\<close> by (intro mult_mono) simp_all
      with assms(3) show False by simp
    qed
    then have "sh * w \<le> 2 ^ 8 * 2 ^ 31" using assms(2,4,5) by (intro mult_mono) simp_all
    then have "sh * w \<le> 2 ^ 51" by simp
    then show ?thesis by simp
  qed
qed



section \<open>Lemmas about the driver\<close>

lemma ceil_sqrt_real:
  fixes n :: nat
  assumes "1 \<le> n"
  defines "k \<equiv> \<lceil>sqrt (real n)\<rceil>"
  shows "1 \<le> k" "(k - 1) * (k - 1) < int n" "int n \<le> k * k"
proof -
  have s: "0 < sqrt (real n)" using assms(1) by simp
  have k: "of_int k - 1 < sqrt (real n)" "sqrt (real n) \<le> of_int k" unfolding k_def by linarith+
  have kpos: "(0::real) < of_int k" using s k(2) by linarith
  then show k1: "1 \<le> k" by simp
  have sq: "sqrt (real n) * sqrt (real n) = real n" by simp
  have "sqrt (real n) * sqrt (real n) \<le> of_int k * of_int k"
    using s k(2) kpos by (intro mult_mono) simp_all
  then have "real_of_int (int n) \<le> of_int (k * k)" using sq by simp
  then show "int n \<le> k * k" by (simp only: of_int_le_iff)
  have "real_of_int (k - 1) * real_of_int (k - 1) < sqrt (real n) * sqrt (real n)"
    using k(1) k1 by (intro mult_strict_mono') simp_all
  then have "real_of_int ((k - 1) * (k - 1)) < of_int (int n)" using sq by simp
  then show "(k - 1) * (k - 1) < int n" by (simp only: of_int_less_iff)
qed

lemma columns_auto:
  fixes n :: nat
  assumes "1 \<le> n" "n < 2 ^ 52"
  shows "math_ceil (math_sqrt (float_of_int (int n))) = \<lceil>sqrt (real n)\<rceil>"
proof -
  have n: "1 \<le> int n" "int n < 2 ^ 52" using assms by simp_all
  then have "float_of_int (int n) = of_int (int n)" by (intro float_of_int_exact) simp
  then show ?thesis
    unfolding math_ceil_def
    using ceil_math_sqrt[OF n ceil_sqrt_real[OF assms(1)]] by simp
qed

lemma main_layout_returns:
  fixes n :: nat and a :: args and sizes :: "(int \<times> int) list"
  assumes "1 \<le> n" "n < 2 ^ 52"
  defines "c \<equiv> (if cols a \<noteq> 0 then cols a else \<lceil>sqrt (real n)\<rceil>)"
  defines "r \<equiv> \<lceil>rat_of_int (int n) / of_int c\<rceil>"
  defines "cw \<equiv> (if cell_width a \<noteq> 0 then cell_width a else Max (set (map fst sizes)))"
  defines "ch \<equiv> (if cell_height a \<noteq> 0 then cell_height a else Max (set (map snd sizes)))"
  shows "main_layout a n sizes =
           Inr \<lparr>cell_w = cw, cell_h = ch, columns = c, rows = r, pad = padding a,
                grid_w = c * cw + (c - 1) * padding a,
                grid_h = r * ch + (r - 1) * padding a\<rparr>"
    and "c \<noteq> 0"
proof -
  have "1 \<le> \<lceil>sqrt (real n)\<rceil>" by (rule ceil_sqrt_real(1)[OF assms(1)])
  then show c0: "c \<noteq> 0" unfolding c_def by (simp del: ceiling_le_iff one_le_ceiling)
  have n: "0 < int n" "int n < 2 ^ 53" using assms(1,2) by simp_all
  have mc: "math_ceil (fl (of_int (int n) / of_int c)) = r"
    unfolding math_ceil_def r_def by (rule ceil_truediv[OF n c0])
  have cdef: "(if cols a \<noteq> 0 then cols a
               else math_ceil (math_sqrt (float_of_int (int n)))) = c"
    unfolding c_def columns_auto[OF assms(1,2)] ..
  have td: "truediv (int n) c = Inr (fl (of_int (int n) / of_int c))"
    unfolding truediv_def using c0 by (simp only: if_False)
  show "main_layout a n sizes =
           Inr \<lparr>cell_w = cw, cell_h = ch, columns = c, rows = r, pad = padding a,
                grid_w = c * cw + (c - 1) * padding a,
                grid_h = r * ch + (r - 1) * padding a\<rparr>"
    unfolding main_layout_def Let_def cdef td cw_def ch_def
    by (simp only: sum.case mc)
qed







lemma within_one:
  fixes x :: rat and q :: int
  assumes "0 < x" "\<lceil>x\<rceil> - 1 \<le> q" "q \<le> \<lfloor>x\<rfloor>"
  shows "\<bar>of_int (max 1 q) - x\<bar> \<le> 1"
proof (cases "1 \<le> q")
  case True
  have "rat_of_int q \<le> of_int \<lfloor>x\<rfloor>" using assms(3) by (simp only: of_int_le_iff)
  then have 1: "rat_of_int q \<le> x" by linarith
  have "rat_of_int (\<lceil>x\<rceil> - 1) \<le> of_int q" using assms(2) by (simp only: of_int_le_iff)
  then have 2: "x - 1 \<le> rat_of_int q" by simp linarith
  from True have "max 1 q = q" by simp
  with 1 2 show ?thesis by simp
next
  case False
  then have "\<lceil>x\<rceil> \<le> 1" using assms(2) by linarith
  then have "x \<le> 1" using ceiling_le_iff[of x 1] by simp
  moreover from False have "max 1 q = 1" by simp
  ultimately show ?thesis using assms(1) by simp
qed

lemma scale_le_cell:
  fixes sw sh w h :: int
  assumes "0 < sw" "0 < sh"
  shows "rat_of_int sw * min (of_int w / of_int sw) (of_int h / of_int sh) \<le> of_int w"
    and "rat_of_int sh * min (of_int w / of_int sw) (of_int h / of_int sh) \<le> of_int h"
proof -
  let ?s = "min (rat_of_int w / of_int sw) (of_int h / of_int sh)"
  have "rat_of_int sw * ?s \<le> of_int sw * (of_int w / of_int sw)"
    using assms(1) by (intro mult_left_mono) simp_all
  then show "rat_of_int sw * ?s \<le> of_int w" using assms(1) by simp
  have "rat_of_int sh * ?s \<le> of_int sh * (of_int h / of_int sh)"
    using assms(2) by (intro mult_left_mono) simp_all
  then show "rat_of_int sh * ?s \<le> of_int h" using assms(2) by simp
qed

section \<open>The claims\<close>



text \<open>
  C2, amended. For a source image and a cell of the sizes the imaging library admits,
  \<open>load_and_fit\<close> resizes to \<open>max(1, floor(srcWidth * scale))\<close> by
  \<open>max(1, floor(srcHeight * scale))\<close> with \<open>scale = min(w / srcWidth, h / srcHeight)\<close>,
  the quotients and the products being rounded to doubles: the product is truncated,
  not rounded to the nearest integer. Against the exact product
  \<open>x = srcDim * min(w / srcWidth, h / srcHeight)\<close>, the resized dimension lies between
  \<open>max(1, ceil(x) - 1)\<close> and \<open>max(1, floor(x))\<close>.
\<close>

theorem load_and_fit_resized_truncates:
  assumes "image_size p = Some (sw, sh)" "1 \<le> sw" "1 \<le> sh" "sw * sh \<le> 2 ^ 28"
    and "1 \<le> w" "w < 2 ^ 31" "1 \<le> h" "h < 2 ^ 31"
  shows "\<exists>c. load_and_fit p w h = Inr c \<and>
           resized c =
             (max 1 \<lfloor>fl (of_int sw * min (fl (of_int w / of_int sw)) (fl (of_int h / of_int sh)))\<rfloor>,
              max 1 \<lfloor>fl (of_int sh * min (fl (of_int w / of_int sw)) (fl (of_int h / of_int sh)))\<rfloor>) \<and>
           max 1 (\<lceil>rat_of_int sw * min (of_int w / of_int sw) (of_int h / of_int sh)\<rceil> - 1)
             \<le> fst (resized c) \<and>
           fst (resized c)
             \<le> max 1 \<lfloor>rat_of_int sw * min (of_int w / of_int sw) (of_int h / of_int sh)\<rfloor> \<and>
           max 1 (\<lceil>rat_of_int sh * min (of_int w / of_int sw) (of_int h / of_int sh)\<rceil> - 1)
             \<le> snd (resized c) \<and>
           snd (resized c)
             \<le> max 1 \<lfloor>rat_of_int sh * min (of_int w / of_int sw) (of_int h / of_int sh)\<rfloor>"
proof -
  define s where "s = min (rat_of_int w / of_int sw) (of_int h / of_int sh)"
  define nw where "nw = max 1 \<lfloor>fmul sw (fl s)\<rfloor>"
  define nh where "nh = max 1 \<lfloor>fmul sh (fl s)\<rfloor>"
  have pos: "0 < sw" "0 < sh" "0 < w" "0 < h" using assms(2,3,5,7) by simp_all
  note ad = admitted_sizes[OF assms(2-8)]
  have "\<bar>sw\<bar> < 2 ^ 53" "\<bar>sh\<bar> < 2 ^ 53" using pos ad(1,2) by simp_all
  then have fm: "fmul sw (fl s) = fl (of_int sw * fl s)" "fmul sh (fl s) = fl (of_int sh * fl s)"
    by (simp_all add: fmul_def float_of_int_exact)
  have fs: "fl s = min (fl (of_int w / of_int sw)) (fl (of_int h / of_int sh))"
    unfolding s_def by (rule fl_min)
  note br = scale_bracket[OF pos ad, folded s_def]
  have eq: "load_and_fit p w h =
      Inr \<lparr>cell_size = (w, h), resized = (nw, nh), offset = ((w - nw) div 2, (h - nh) div 2)\<rparr>"
    unfolding nw_def nh_def s_def by (rule load_and_fit_floor[OF assms(1) pos])
  have r: "(nw, nh) =
      (max 1 \<lfloor>fl (of_int sw * min (fl (of_int w / of_int sw)) (fl (of_int h / of_int sh)))\<rfloor>,
       max 1 \<lfloor>fl (of_int sh * min (fl (of_int w / of_int sw)) (fl (of_int h / of_int sh)))\<rfloor>)"
    unfolding nw_def nh_def fm fs[symmetric] ..
  have b: "max 1 (\<lceil>rat_of_int sw * s\<rceil> - 1) \<le> nw" "nw \<le> max 1 \<lfloor>rat_of_int sw * s\<rfloor>"
    "max 1 (\<lceil>rat_of_int sh * s\<rceil> - 1) \<le> nh" "nh \<le> max 1 \<lfloor>rat_of_int sh * s\<rfloor>"
    unfolding nw_def nh_def by (intro max_one_mono br)+
  show ?thesis
    unfolding s_def[symmetric]
  proof (intro exI conjI)
    show "load_and_fit p w h =
      Inr \<lparr>cell_size = (w, h), resized = (nw, nh), offset = ((w - nw) div 2, (h - nh) div 2)\<rparr>"
      by (rule eq)
  qed (simp_all add: r[symmetric, unfolded s_def[symmetric]] b del: max.bounded_iff)
qed

theorem load_and_fit_resized_truncates_witness:
  "\<exists>c. load_and_fit \<lparr>entry_name = ''b.png'', is_file = True, image_size = Some (4, 7)\<rparr> 1 7 = Inr c \<and>
           resized c =
             (max 1 \<lfloor>fl (of_int 4 * min (fl (of_int 1 / of_int 4)) (fl (of_int 7 / of_int 7)))\<rfloor>,
              max 1 \<lfloor>fl (of_int 7 * min (fl (of_int 1 / of_int 4)) (fl (of_int 7 / of_int 7)))\<rfloor>) \<and>
           max 1 (\<lceil>rat_of_int 4 * min (of_int 1 / of_int 4) (of_int 7 / of_int 7)\<rceil> - 1)
             \<le> fst (resized c) \<and>
           fst (resized c)
             \<le> max 1 \<lfloor>rat_of_int 4 * min (of_int 1 / of_int 4) (of_int 7 / of_int 7)\<rfloor> \<and>
           max 1 (\<lceil>rat_of_int 7 * min (of_int 1 / of_int 4) (of_int 7 / of_int 7)\<rceil> - 1)
             \<le> snd (resized c) \<and>
           snd (resized c)
             \<le> max 1 \<lfloor>rat_of_int 7 * min (of_int 1 / of_int 4) (of_int 7 / of_int 7)\<rfloor>"
  by (rule load_and_fit_resized_truncates) simp_all

text \<open>
  C2 as the specification states it, with rounding to the nearest integer, fails: a 4 by 7
  image in a 1 by 7 cell has scale 1/4 and is resized to 1 by 1, where the
  specification's formula gives a height of \<open>round(1.75) = 2\<close>.
\<close>

theorem load_and_fit_rounds_down_counterexample:
  "map_sum id resized
     (load_and_fit \<lparr>entry_name = ''b.png'', is_file = True, image_size = Some (4, 7)\<rparr> 1 7)
     = Inr (1, 1)
   \<and> spec_resized 4 7 1 7 = (1, 2)"
  by code_simp

text \<open>
  C3, amended. For \<open>n \<ge> 1\<close> images, the column count is the caller's \<open>cols\<close> when it
  is not zero and \<open>ceil(sqrt(n))\<close> when it is zero. For \<open>cols \<ge> 0\<close> this is the
  specification's choice and the column count is at least 1.
\<close>

theorem columns_choice:
  fixes n :: nat
  assumes "1 \<le> n" "n < 2 ^ 52"
  shows "\<exists>g. main_layout a n sizes = Inr g \<and>
           columns g = (if cols a \<noteq> 0 then cols a else \<lceil>sqrt (real n)\<rceil>) \<and>
           (0 \<le> cols a \<longrightarrow> columns g = spec_columns (cols a) n \<and> 1 \<le> columns g)"
proof -
  note ml = main_layout_returns(1)[OF assms, where a = a and sizes = sizes]
    main_layout_returns(2)[OF assms, where a = a]
  obtain g where g: "main_layout a n sizes = Inr g" using ml(1) by blast
  from g ml(1) have c: "columns g = (if cols a \<noteq> 0 then cols a else \<lceil>sqrt (real n)\<rceil>)" by auto
  have k: "1 \<le> \<lceil>sqrt (real n)\<rceil>" by (rule ceil_sqrt_real(1)[OF assms(1)])
  have "columns g = spec_columns (cols a) n \<and> 1 \<le> columns g" if "0 \<le> cols a"
    using that k unfolding c spec_columns_def by (cases "cols a = 0") simp_all
  with g c show ?thesis by blast
qed

theorem columns_choice_witness:
  "\<exists>g. main_layout
       \<lparr>folder = ''photos'', output_path = ''grid.jpg'', cols = 0, cell_width = 0,
        cell_height = 0, padding = 8, bg = ''#ffffff''\<rparr>
       5 [(4, 7), (10, 10), (98, 1), (3, 3), (5, 5)] = Inr g
     \<and> columns g = 3 \<and> columns g = spec_columns 0 5 \<and> 1 \<le> columns g"
proof -
  let ?A = "\<lparr>folder = ''photos'', output_path = ''grid.jpg'', cols = 0, cell_width = 0,
        cell_height = 0, padding = 8, bg = ''#ffffff''\<rparr>"
  let ?S = "[(4, 7), (10, 10), (98, 1), (3, 3), (5, 5)]"
  have ml: "main_layout ?A 5 ?S =
      Inr \<lparr>cell_w = 98, cell_h = 10, columns = 3, rows = 2, pad = 8,
           grid_w = 310, grid_h = 28\<rparr>"
    by code_simp
  have b: "1 \<le> (5::nat)" "(5::nat) < 2 ^ 52" by simp_all
  from columns_choice[OF b, of ?A ?S] obtain g where
    g: "main_layout ?A 5 ?S = Inr g"
    and i: "0 \<le> cols ?A \<longrightarrow> columns g = spec_columns (cols ?A) 5 \<and> 1 \<le> columns g"
    by blast
  from g ml have c: "columns g = 3" by auto
  from i have "columns g = spec_columns 0 5 \<and> 1 \<le> columns g" by simp
  with g c show ?thesis by blast
qed

text \<open>
  C3 as the specification states it, with every \<open>cols \<le> 0\<close> treated as auto, fails:
  with \<open>cols = -2\<close> and four images the column count is \<open>-2\<close>, not
  \<open>ceil(sqrt(4)) = 2\<close>.
\<close>

theorem negative_cols_counterexample:
  "map_sum id columns
     (main_layout
        \<lparr>folder = ''photos'', output_path = ''grid.jpg'', cols = - 2, cell_width = 0,
        cell_height = 0, padding = 8, bg = ''#ffffff''\<rparr>
        4 [(1, 1), (1, 1), (1, 1), (1, 1)])
     = Inr (- 2)
   \<and> spec_columns (- 2) 4 = 2"
proof -
  have "sqrt (real 4) = 2" by simp
  then have "spec_columns (- 2) 4 = 2" by (simp add: spec_columns_def)
  moreover have "map_sum id columns
     (main_layout
        \<lparr>folder = ''photos'', output_path = ''grid.jpg'', cols = - 2, cell_width = 0,
        cell_height = 0, padding = 8, bg = ''#ffffff''\<rparr>
        4 [(1, 1), (1, 1), (1, 1), (1, 1)])
     = Inr (- 2)"
    by code_simp
  ultimately show ?thesis by simp
qed



text \<open>
  C5. For a source image and a cell of the sizes the imaging library admits, the resized
  image fits the cell, \<open>1 \<le> newWidth \<le> w\<close> and \<open>1 \<le> newHeight \<le> h\<close>, and each of its
  dimensions is within one pixel of the source dimension times the exact scale
  \<open>min(w / srcWidth, h / srcHeight)\<close>, which is the size that has the source's aspect
  ratio.
\<close>

theorem load_and_fit_fits_cell:
  assumes "image_size p = Some (sw, sh)" "1 \<le> sw" "1 \<le> sh" "sw * sh \<le> 2 ^ 28"
    and "1 \<le> w" "w < 2 ^ 31" "1 \<le> h" "h < 2 ^ 31"
  shows "\<exists>c. load_and_fit p w h = Inr c \<and>
           1 \<le> fst (resized c) \<and> fst (resized c) \<le> w \<and>
           1 \<le> snd (resized c) \<and> snd (resized c) \<le> h \<and>
           \<bar>rat_of_int (fst (resized c))
              - of_int sw * min (of_int w / of_int sw) (of_int h / of_int sh)\<bar> \<le> 1 \<and>
           \<bar>rat_of_int (snd (resized c))
              - of_int sh * min (of_int w / of_int sw) (of_int h / of_int sh)\<bar> \<le> 1"
proof -
  define s where "s = min (rat_of_int w / of_int sw) (of_int h / of_int sh)"
  define nw where "nw = max 1 \<lfloor>fmul sw (fl s)\<rfloor>"
  define nh where "nh = max 1 \<lfloor>fmul sh (fl s)\<rfloor>"
  have pos: "0 < sw" "0 < sh" "0 < w" "0 < h" using assms(2,3,5,7) by simp_all
  note ad = admitted_sizes[OF assms(2-8)]
  have s: "0 < s" unfolding s_def using pos by simp
  have xw: "0 < rat_of_int sw * s" and xh: "0 < rat_of_int sh * s" using pos s by simp_all
  note br = scale_bracket[OF pos ad, folded s_def]
  note le = scale_le_cell[OF pos(1,2), of w h, folded s_def]
  have eq: "load_and_fit p w h =
      Inr \<lparr>cell_size = (w, h), resized = (nw, nh), offset = ((w - nw) div 2, (h - nh) div 2)\<rparr>"
    unfolding nw_def nh_def s_def by (rule load_and_fit_floor[OF assms(1) pos])
  have "\<lfloor>rat_of_int sw * s\<rfloor> \<le> w" using le(1) by (simp add: floor_le_iff)
  then have "\<lfloor>fmul sw (fl s)\<rfloor> \<le> w" using br(2) by linarith
  then have w1: "1 \<le> nw" "nw \<le> w" unfolding nw_def using assms(5) by simp_all
  have "\<lfloor>rat_of_int sh * s\<rfloor> \<le> h" using le(2) by (simp add: floor_le_iff)
  then have "\<lfloor>fmul sh (fl s)\<rfloor> \<le> h" using br(4) by linarith
  then have h1: "1 \<le> nh" "nh \<le> h" unfolding nh_def using assms(7) by simp_all
  have ew: "\<bar>rat_of_int nw - of_int sw * s\<bar> \<le> 1"
    unfolding nw_def by (rule within_one[OF xw br(1,2)])
  have eh: "\<bar>rat_of_int nh - of_int sh * s\<bar> \<le> 1"
    unfolding nh_def by (rule within_one[OF xh br(3,4)])
  show ?thesis
    unfolding s_def[symmetric]
  proof (intro exI conjI)
    show "load_and_fit p w h =
      Inr \<lparr>cell_size = (w, h), resized = (nw, nh), offset = ((w - nw) div 2, (h - nh) div 2)\<rparr>"
      by (rule eq)
  qed (simp_all add: w1 h1 ew eh)
qed

theorem load_and_fit_fits_cell_witness:
  "\<exists>c. load_and_fit \<lparr>entry_name = ''a.JPG'', is_file = True, image_size = Some (98, 1)\<rparr> 2 1 = Inr c \<and>
           1 \<le> fst (resized c) \<and> fst (resized c) \<le> 2 \<and>
           1 \<le> snd (resized c) \<and> snd (resized c) \<le> 1 \<and>
           \<bar>rat_of_int (fst (resized c))
              - of_int 98 * min (of_int 2 / of_int 98) (of_int 1 / of_int 1)\<bar> \<le> 1 \<and>
           \<bar>rat_of_int (snd (resized c))
              - of_int 1 * min (of_int 2 / of_int 98) (of_int 1 / of_int 1)\<bar> \<le> 1"
  by (rule load_and_fit_fits_cell) simp_all





text \<open>
  C8. \<open>iter_images\<close> yields exactly the entries of the directory that are regular files
  and whose name ends in a dot and one of jpg, jpeg, png, bmp, gif, tif, tiff, webp in any
  mix of upper and lower case, the dot not being the first character of the name. No
  entry is dropped or repeated, the result is sorted by name, and it does not depend on
  the order in which the file system lists the directory (whose names are distinct).
\<close>

theorem iter_images_sorted_image_files:
  "(\<forall>e. e \<in> set (iter_images listing) \<longleftrightarrow>
        e \<in> set listing \<and> is_file e \<and>
        (\<exists>stem ext. entry_name e = stem @ CHR ''.'' # ext \<and> stem \<noteq> [] \<and>
           lower ext \<in> {''jpg'', ''jpeg'', ''png'', ''bmp'', ''gif'', ''tif'', ''tiff'', ''webp''}))
   \<and> mset (iter_images listing) = filter_mset is_image (mset listing)
   \<and> sorted (map entry_name (iter_images listing))
   \<and> (distinct (map entry_name listing) \<and> mset listing' = mset listing
        \<longrightarrow> iter_images listing' = iter_images listing)"
proof (intro conjI allI impI)
  fix e
  show "e \<in> set (iter_images listing) \<longleftrightarrow>
        e \<in> set listing \<and> is_file e \<and>
        (\<exists>stem ext. entry_name e = stem @ CHR ''.'' # ext \<and> stem \<noteq> [] \<and>
           lower ext \<in> {''jpg'', ''jpeg'', ''png'', ''bmp'', ''gif'', ''tif'', ''tiff'', ''webp''})"
    unfolding has_ext_iff[symmetric] by (auto simp: iter_images_def is_image_def)
next
  show "mset (iter_images listing) = filter_mset is_image (mset listing)"
    by (simp add: iter_images_def)
next
  show "sorted (map entry_name (iter_images listing))"
    unfolding iter_images_def by (rule sorted_filter) simp
next
  assume "distinct (map entry_name listing) \<and> mset listing' = mset listing"
  then have "sort_key entry_name listing' = sort_key entry_name listing"
    by (intro sorted_names_unique) simp_all
  then show "iter_images listing' = iter_images listing"
    by (simp only: iter_images_def)
qed

theorem iter_images_sorted_image_files_witness:
  "iter_images
     [\<lparr>entry_name = ''sub.png'', is_file = False, image_size = None\<rparr>,
      \<lparr>entry_name = ''b.png'', is_file = True, image_size = Some (4, 7)\<rparr>,
      \<lparr>entry_name = ''a.JPG'', is_file = True, image_size = Some (98, 1)\<rparr>]
   = iter_images
     [\<lparr>entry_name = ''a.JPG'', is_file = True, image_size = Some (98, 1)\<rparr>,
      \<lparr>entry_name = ''sub.png'', is_file = False, image_size = None\<rparr>,
      \<lparr>entry_name = ''b.png'', is_file = True, image_size = Some (4, 7)\<rparr>]
   \<and> \<lparr>entry_name = ''a.JPG'', is_file = True, image_size = Some (98, 1)\<rparr>
       \<in> set (iter_images
          [\<lparr>entry_name = ''a.JPG'', is_file = True, image_size = Some (98, 1)\<rparr>,
           \<lparr>entry_name = ''sub.png'', is_file = False, image_size = None\<rparr>,
           \<lparr>entry_name = ''b.png'', is_file = True, image_size = Some (4, 7)\<rparr>])"
proof -
  let ?a = "\<lparr>entry_name = ''a.JPG'', is_file = True, image_size = Some (98, 1)\<rparr>"
  let ?b = "\<lparr>entry_name = ''b.png'', is_file = True, image_size = Some (4, 7)\<rparr>"
  let ?s = "\<lparr>entry_name = ''sub.png'', is_file = False, image_size = None\<rparr>"
  note t = iter_images_sorted_image_files[of "[?a, ?s, ?b]" "[?s, ?b, ?a]"]
  have d: "distinct (map entry_name [?a, ?s, ?b]) \<and> mset [?s, ?b, ?a] = mset [?a, ?s, ?b]"
    by simp
  have "lower ''JPG'' = ''jpg''" by code_simp
  then have "entry_name ?a = ''a'' @ CHR ''.'' # ''JPG'' \<and> ''a'' \<noteq> [] \<and>
        lower ''JPG'' \<in> {''jpg'', ''jpeg'', ''png'', ''bmp'', ''gif'', ''tif'', ''tiff'', ''webp''}"
    by simp
  then have "\<exists>stem ext. entry_name ?a = stem @ CHR ''.'' # ext \<and> stem \<noteq> [] \<and>
        lower ext \<in> {''jpg'', ''jpeg'', ''png'', ''bmp'', ''gif'', ''tif'', ''tiff'', ''webp''}"
    by blast
  then have "?a \<in> set (iter_images [?a, ?s, ?b])" using t by simp
  moreover have "iter_images [?s, ?b, ?a] = iter_images [?a, ?s, ?b]" using t d by blast
  ultimately show ?thesis by simp
qed

text \<open>
  C9. When the folder is a directory and \<open>iter_images\<close> finds no image in it, \<open>main\<close>
  ends with \<open>SystemExit\<close> and the message "No images found in the folder.": the exit
  status is not zero, and nothing has been saved or printed.
\<close>

theorem main_no_images:
  assumes "dirs w (folder a) = Some listing" and "iter_images listing = []"
  shows "main a w = (Inl (SystemExit ''No images found in the folder.''), w)
     \<and> exit_status (fst (main a w)) \<noteq> 0
     \<and> error_message (fst (main a w)) = Some ''No images found in the folder.''
     \<and> saved (snd (main a w)) = saved w
     \<and> printed (snd (main a w)) = printed w"
  using assms by (simp add: main_def exit_status_def error_message_def)

theorem main_no_images_witness:
  "main \<lparr>folder = ''photos'', output_path = ''grid.jpg'', cols = 0, cell_width = 0,
          cell_height = 0, padding = 8, bg = ''#ffffff''\<rparr>
        \<lparr>dirs = (\<lambda>d. if d = ''photos''
                       then Some [\<lparr>entry_name = ''notes.txt'', is_file = True, image_size = None\<rparr>]
                       else None),
          saved = [], printed = []\<rparr>
   = (Inl (SystemExit ''No images found in the folder.''),
      \<lparr>dirs = (\<lambda>d. if d = ''photos''
                       then Some [\<lparr>entry_name = ''notes.txt'', is_file = True, image_size = None\<rparr>]
                       else None),
          saved = [], printed = []\<rparr>)"
proof -
  have "iter_images [\<lparr>entry_name = ''notes.txt'', is_file = True, image_size = None\<rparr>] = []"
    by code_simp
  then show ?thesis
    using main_no_images[of
        "\<lparr>dirs = (\<lambda>d. if d = ''photos''
                       then Some [\<lparr>entry_name = ''notes.txt'', is_file = True, image_size = None\<rparr>]
                       else None),
          saved = [], printed = []\<rparr>"
        "\<lparr>folder = ''photos'', output_path = ''grid.jpg'', cols = 0, cell_width = 0,
          cell_height = 0, padding = 8, bg = ''#ffffff''\<rparr>"
        "[\<lparr>entry_name = ''notes.txt'', is_file = True, image_size = None\<rparr>]"]
    by simp
qed



end
